theory Spec2Isabelle
  imports Main "HOL-Library.Word" "HOL-Library.Product_Lexorder" "HOL-Library.Char_ord"
    "HOL-Library.List_Lexorder" "HOL-Library.Multiset"
begin

unbundle bit_operations_syntax

section \<open>Connection pool: limits stored at construction (client/pool.go)\<close>

text \<open>
  \<^verbatim>\<open>getDefaultPoolOptions\<close> gives \<open>minAlive = 1\<close>, \<open>maxAlive = 10\<close>, \<open>maxIdle = 2\<close>;
  each option of \<^verbatim>\<open>NewPoolWithOptions\<close> is a function that updates the options record.
  Go's \<open>int\<close> fields are only compared and copied here, so they are modelled as \<open>int\<close>.
\<close>

record poolOptions =
  minAlive :: int
  maxAlive :: int
  maxIdle :: int

definition getDefaultPoolOptions :: poolOptions where
  "getDefaultPoolOptions = \<lparr>minAlive = 1, maxAlive = 10, maxIdle = 2\<rparr>"

text \<open>The three \<^verbatim>\<open>if\<close> statements of lines 102-110, in the source's order.\<close>

definition clampLimits :: "poolOptions \<Rightarrow> poolOptions" where
  "clampLimits po =
     (let po1 = (if minAlive po > maxAlive po then po\<lparr>minAlive := maxAlive po\<rparr> else po);
          po2 = (if maxIdle po1 > maxAlive po1 then po1\<lparr>maxIdle := maxAlive po1\<rparr> else po1);
          po3 = (if maxIdle po2 \<le> minAlive po2 then po2\<lparr>maxIdle := minAlive po2\<rparr> else po2)
      in po3)"

text \<open>
  The limits the pool stores: the defaults, then every option applied in order
  (\<^verbatim>\<open>for _, o := range options { o(&po) }\<close>), then the clamping.
\<close>

definition NewPoolWithOptions_limits :: "(poolOptions \<Rightarrow> poolOptions) list \<Rightarrow> poolOptions" where
  "NewPoolWithOptions_limits options = clampLimits (fold (\<lambda>o' po. o' po) options getDefaultPoolOptions)"

definition WithPoolLimits :: "int \<Rightarrow> int \<Rightarrow> int \<Rightarrow> poolOptions \<Rightarrow> poolOptions" where
  "WithPoolLimits mn mx mi po = po\<lparr>minAlive := mn, maxAlive := mx, maxIdle := mi\<rparr>"

section \<open>Interval algebra (mysql GTID intervals)\<close>

text \<open>
  An \<^verbatim>\<open>Interval\<close> is the half-open range \<open>[Start, Stop)\<close> of two Go \<^verbatim>\<open>int64\<close>
  values. They are 64-bit words here; the source's \<^verbatim>\<open><\<close>, \<^verbatim>\<open><=\<close> on \<^verbatim>\<open>int64\<close> are the signed
  comparisons \<open><s\<close>, \<open>\<le>s\<close>, and \<^verbatim>\<open>+\<close> wraps around.
\<close>

type_synonym int64 = "64 word"

record Interval =
  Start :: int64
  Stop :: int64

type_synonym IntervalSlice = "Interval list"

text \<open>
  \<^verbatim>\<open>IntervalSlice.Less\<close>: by \<open>Start\<close>, then by \<open>Stop\<close>. It is the strict
  lexicographic order on the pair \<open>(Start, Stop)\<close> (lemma \<open>Less_iff_key\<close> below), a total
  order on interval values, so the result of \<^verbatim>\<open>sort.Sort\<close> is the one sorted permutation
  whatever the library's algorithm; \<open>Sort\<close> is that permutation.
\<close>

definition Less :: "Interval \<Rightarrow> Interval \<Rightarrow> bool" where
  "Less a b =
     (if Start a <s Start b then True
      else if Start b <s Start a then False
      else Stop a <s Stop b)"

definition interval_key :: "Interval \<Rightarrow> int \<times> int" where
  "interval_key i = (sint (Start i), sint (Stop i))"

definition Sort :: "IntervalSlice \<Rightarrow> IntervalSlice" where
  "Sort s = sort_key interval_key s"

text \<open>
  \<^verbatim>\<open>IntervalSlice.Normalize\<close>. The loop over \<^verbatim>\<open>s[1:]\<close> carries the result slice \<open>n\<close>:
  an interval that starts after the last one's \<open>Stop\<close> is appended, any other is merged
  into the last one. The function returns Go's \<^verbatim>\<open>nil\<close> slice exactly when \<open>s\<close> is empty and
  a slice of at least one element otherwise, so the empty list stands for \<^verbatim>\<open>nil\<close>.
\<close>

fun Normalize_loop :: "IntervalSlice \<Rightarrow> IntervalSlice \<Rightarrow> IntervalSlice" where
  "Normalize_loop n [] = n"
| "Normalize_loop n (s_i # rest) =
     (let last' = last n in
      if Stop last' <s Start s_i then Normalize_loop (n @ [s_i]) rest
      else
        let stop = (if Stop s_i <s Stop last' then Stop last' else Stop s_i)
        in Normalize_loop (n[length n - 1 := \<lparr>Start = Start last', Stop = stop\<rparr>]) rest)"

definition Normalize :: "IntervalSlice \<Rightarrow> IntervalSlice" where
  "Normalize s =
     (if length s = 0 then []
      else let s' = Sort s in Normalize_loop [s' ! 0] (drop 1 s'))"

text \<open>
  \<^verbatim>\<open>IntervalSlice.Contain\<close>: the cursor \<^verbatim>\<open>j\<close> over \<open>s\<close> is the first argument (the rest
  of \<open>s\<close> from \<^verbatim>\<open>j\<close> on), the cursor \<^verbatim>\<open>i\<close> over \<open>sub\<close> the second.
\<close>

fun Contain_loop :: "IntervalSlice \<Rightarrow> IntervalSlice \<Rightarrow> bool" where
  "Contain_loop s [] = True"
| "Contain_loop [] (sub_i # sub) = False"
| "Contain_loop (s_j # s) (sub_i # sub) =
     (if Stop s_j <s Start sub_i then Contain_loop s (sub_i # sub)
      else if Start sub_i <s Start s_j \<or> Stop s_j <s Stop sub_i then False
      else Contain_loop (s_j # s) sub)"

definition Contain :: "IntervalSlice \<Rightarrow> IntervalSlice \<Rightarrow> bool" where
  "Contain s sub = Contain_loop s sub"

text \<open>
  \<^verbatim>\<open>UUIDSet.MinusInterval\<close>. The loop state is the current \<open>minuend\<close>, the rest of
  \<^verbatim>\<open>s.Intervals\<close> from \<^verbatim>\<open>i\<close> on, the rest of the normalized subtrahend from \<^verbatim>\<open>j\<close> on,
  and the result \<open>n\<close>. \<^verbatim>\<open>i++\<close> drops the head of the first list, \<^verbatim>\<open>j++\<close> the head of the
  second. The last branch is the source's \<^verbatim>\<open>panic("should never be here")\<close>: \<open>None\<close>.
\<close>

definition MaxInt64 :: int64 where
  "MaxInt64 = 9223372036854775807"

function MinusInterval_loop ::
  "Interval \<Rightarrow> IntervalSlice \<Rightarrow> IntervalSlice \<Rightarrow> IntervalSlice \<Rightarrow> IntervalSlice option" where
  "MinusInterval_loop minuend0 [] ins n = Some n"
| "MinusInterval_loop minuend0 (s_i # si) ins n =
     (let minuend = (if Stop minuend0 \<noteq> Stop s_i then s_i else minuend0);
          subtrahend = (case ins of in_j # _ \<Rightarrow> in_j
                         | [] \<Rightarrow> \<lparr>Start = MaxInt64, Stop = MaxInt64\<rparr>)
      in
      if Stop minuend \<le>s Start subtrahend then
        MinusInterval_loop minuend si ins (n @ [minuend])
      else if Stop subtrahend \<le>s Start minuend then
        MinusInterval_loop minuend (s_i # si) (tl ins) n
      else if Start minuend <s Start subtrahend \<and> Stop minuend \<le>s Stop subtrahend then
        MinusInterval_loop minuend si ins (n @ [\<lparr>Start = Start minuend, Stop = Start subtrahend\<rparr>])
      else if Start subtrahend \<le>s Start minuend \<and> Stop subtrahend <s Stop minuend then
        MinusInterval_loop \<lparr>Start = Stop subtrahend, Stop = Stop minuend\<rparr> (s_i # si) (tl ins) n
      else if Start subtrahend \<le>s Start minuend \<and> Stop minuend \<le>s Stop subtrahend then
        MinusInterval_loop minuend si ins n
      else if Start minuend <s Start subtrahend \<and> Stop subtrahend <s Stop minuend then
        MinusInterval_loop \<lparr>Start = Stop subtrahend, Stop = Stop minuend\<rparr> (s_i # si) (tl ins)
          (n @ [\<lparr>Start = Start minuend, Stop = Start subtrahend\<rparr>])
      else None)"
  by pat_completeness auto

lemma sle_MaxInt64: "x \<le>s MaxInt64"
proof -
  have "sint x < 2 ^ (LENGTH(64) - 1)" by (rule sint_lt)
  then show ?thesis by (simp add: word_sle_eq MaxInt64_def)
qed

termination MinusInterval_loop
proof (relation "measure (\<lambda>(m, si, ins, n). length si + length ins)")
  show "wf (measure (\<lambda>(m, si, ins, n). length si + length ins))" by simp
qed (auto simp: sle_MaxInt64 split: list.splits)

text \<open>
  A UUID is \<^verbatim>\<open>[16]byte\<close>: a list of bytes, of length 16 where it matters.
  \<^verbatim>\<open>MinusInterval\<close> starts the loop with the zero \<^verbatim>\<open>Interval\<close> as minuend and stores the
  normalized result.
\<close>

type_synonym UUID = "8 word list"

record UUIDSet =
  SID :: UUID
  Intervals :: IntervalSlice

definition MinusInterval :: "UUIDSet \<Rightarrow> IntervalSlice \<Rightarrow> UUIDSet option" where
  "MinusInterval s in' =
     (case MinusInterval_loop \<lparr>Start = 0, Stop = 0\<rparr> (Intervals s) (Normalize in') [] of
        None \<Rightarrow> None
      | Some n \<Rightarrow> Some (s\<lparr>Intervals := Normalize n\<rparr>))"

definition AddInterval :: "UUIDSet \<Rightarrow> IntervalSlice \<Rightarrow> UUIDSet" where
  "AddInterval s in' = s\<lparr>Intervals := Normalize (Intervals s @ in')\<rparr>"

text \<open>
  \<^verbatim>\<open>UUID.String\<close> of the uuid library: lower-case hexadecimal in the groups 8-4-4-4-12.
\<close>

definition hextable :: string where
  "hextable = ''0123456789abcdef''"

definition hex_byte :: "8 word \<Rightarrow> string" where
  "hex_byte v = [hextable ! unat (drop_bit 4 v), hextable ! unat (v AND 15)]"

definition hex_Encode :: "8 word list \<Rightarrow> string" where
  "hex_Encode src = concat (map hex_byte src)"

definition UUID_String :: "UUID \<Rightarrow> string" where
  "UUID_String u =
     hex_Encode (take 4 u) @ ''-'' @
     hex_Encode (take 2 (drop 4 u)) @ ''-'' @
     hex_Encode (take 2 (drop 6 u)) @ ''-'' @
     hex_Encode (take 2 (drop 8 u)) @ ''-'' @
     hex_Encode (drop 10 u)"

text \<open>
  \<^verbatim>\<open>MysqlGTIDSet\<close> holds a Go map from the UUID's string to the \<^verbatim>\<open>*UUIDSet\<close>. The argument
  of \<^verbatim>\<open>AddSet\<close> and \<^verbatim>\<open>MinusSet\<close> is a pointer that may be \<^verbatim>\<open>nil\<close>: an option.
  \<^verbatim>\<open>MinusSet\<close> tests \<^verbatim>\<open>uuidSet.Intervals == nil\<close> on what \<^verbatim>\<open>Normalize\<close> returned, which is
  \<^verbatim>\<open>nil\<close> exactly when it is empty.
\<close>

record MysqlGTIDSet =
  Sets :: "string \<rightharpoonup> UUIDSet"

definition AddSet :: "MysqlGTIDSet \<Rightarrow> UUIDSet option \<Rightarrow> MysqlGTIDSet" where
  "AddSet s set' =
     (case set' of
        None \<Rightarrow> s
      | Some st \<Rightarrow>
          let sid = UUID_String (SID st) in
          (case Sets s sid of
             Some o' \<Rightarrow> s\<lparr>Sets := (Sets s)(sid \<mapsto> AddInterval o' (Intervals st))\<rparr>
           | None \<Rightarrow> s\<lparr>Sets := (Sets s)(sid \<mapsto> st)\<rparr>))"

definition MinusSet :: "MysqlGTIDSet \<Rightarrow> UUIDSet option \<Rightarrow> MysqlGTIDSet option" where
  "MinusSet s set' =
     (case set' of
        None \<Rightarrow> Some s
      | Some st \<Rightarrow>
          let sid = UUID_String (SID st) in
          (case Sets s sid of
             Some uuidSet \<Rightarrow>
               (case MinusInterval uuidSet (Intervals st) of
                  None \<Rightarrow> None
                | Some uuidSet' \<Rightarrow>
                    if Intervals uuidSet' = [] then Some (s\<lparr>Sets := (Sets s)(sid := None)\<rparr>)
                    else Some (s\<lparr>Sets := (Sets s)(sid \<mapsto> uuidSet')\<rparr>))
           | None \<Rightarrow> Some s))"

subsection \<open>The specification's notions\<close>

text \<open>
  The points an interval covers and the points a slice covers; an interval is valid when
  \<open>Stop > Start\<close>; a slice is normalized when it is sorted by \<open>Start\<close>, its intervals are
  pairwise disjoint, and no interval ends where the next one starts.
\<close>

definition points :: "Interval \<Rightarrow> int64 set" where
  "points i = {p. Start i \<le>s p \<and> p <s Stop i}"

definition covers :: "IntervalSlice \<Rightarrow> int64 set" where
  "covers s = (\<Union>i \<in> set s. points i)"

definition valid_interval :: "Interval \<Rightarrow> bool" where
  "valid_interval i \<longleftrightarrow> Start i <s Stop i"

definition disjoint :: "Interval \<Rightarrow> Interval \<Rightarrow> bool" where
  "disjoint a b \<longleftrightarrow> Stop a \<le>s Start b \<or> Stop b \<le>s Start a"

definition normalized :: "IntervalSlice \<Rightarrow> bool" where
  "normalized s \<longleftrightarrow>
     sorted_wrt (\<lambda>a b. Start a \<le>s Start b) s \<and>
     sorted_wrt disjoint s \<and>
     successively (\<lambda>a b. Stop a \<noteq> Start b) s"

subsection \<open>Notions used in the proofs\<close>

text \<open>
  \<open>merged\<close> is the interval \<^verbatim>\<open>Normalize\<close> writes over the last one; \<open>chainv\<close> says that all
  intervals are valid and each ends before the next one starts; \<open>load\<close> is the minuend
  an iteration of \<^verbatim>\<open>MinusInterval\<close> works with, \<open>minv\<close> the invariant of the minuend it
  inherits, and \<open>good\<close> describes the intervals the loop still appends. \<open>remaining\<close> is the
  set of points the loop still has to deal with: those of the minuend it works with and
  those of the intervals after it.
\<close>

definition merged :: "Interval \<Rightarrow> Interval \<Rightarrow> Interval" where
  "merged l x = \<lparr>Start = Start l, Stop = (if Stop x <s Stop l then Stop l else Stop x)\<rparr>"

definition chainv :: "IntervalSlice \<Rightarrow> bool" where
  "chainv s \<longleftrightarrow> (\<forall>x \<in> set s. Start x <s Stop x) \<and> sorted_wrt (\<lambda>a b. Stop a <s Start b) s"

definition load :: "Interval \<Rightarrow> Interval \<Rightarrow> Interval" where
  "load m0 s_i = (if Stop m0 \<noteq> Stop s_i then s_i else m0)"

definition minv :: "Interval \<Rightarrow> IntervalSlice \<Rightarrow> bool" where
  "minv m0 S \<longleftrightarrow> (case S of [] \<Rightarrow> True
     | s_i # _ \<Rightarrow> Stop m0 = Stop s_i \<longrightarrow> Start s_i \<le>s Start m0 \<and> Start m0 \<le>s Stop m0)"

definition within :: "IntervalSlice \<Rightarrow> Interval \<Rightarrow> bool" where
  "within S x \<longleftrightarrow> (\<exists>y \<in> set S. Start y \<le>s Start x \<and> Stop x \<le>s Stop y)"

definition apart :: "IntervalSlice \<Rightarrow> Interval \<Rightarrow> bool" where
  "apart B x \<longleftrightarrow> (\<forall>b \<in> set B. Stop x \<le>s Start b \<or> Stop b \<le>s Start x)"

definition good :: "Interval \<Rightarrow> IntervalSlice \<Rightarrow> IntervalSlice \<Rightarrow> IntervalSlice \<Rightarrow> bool" where
  "good m S B r \<longleftrightarrow> sorted_wrt (\<lambda>a b. Stop a <s Start b) r \<and>
     (\<forall>x \<in> set r. Start x \<le>s Stop x \<and> Start m \<le>s Start x \<and> within S x \<and> apart B x)"

definition res_ok :: "Interval \<Rightarrow> IntervalSlice \<Rightarrow> IntervalSlice \<Rightarrow> IntervalSlice \<Rightarrow> bool" where
  "res_ok m0 S B r \<longleftrightarrow> (case S of [] \<Rightarrow> r = [] | s_i # _ \<Rightarrow> good (load m0 s_i) S B r)"

definition remaining :: "Interval \<Rightarrow> IntervalSlice \<Rightarrow> int64 set" where
  "remaining m0 S = (case S of [] \<Rightarrow> {} | s_i # si \<Rightarrow> points (load m0 s_i) \<union> covers si)"

section \<open>Text form of an interval\<close>

text \<open>
  The Go library functions the parser and printer call, for the arguments they get here:
  \<^verbatim>\<open>strings.Split\<close> with a one-character separator; \<^verbatim>\<open>fmt.Sprintf("%d", x)\<close> on an
  \<^verbatim>\<open>int64\<close> (\<open>FormatInt\<close>: decimal digits, a leading minus sign for a negative value);
  \<^verbatim>\<open>strconv.ParseInt(s, 10, 64)\<close>: an optional sign, then \<^verbatim>\<open>ParseUint\<close> on the rest, which
  reads decimal digits from the left and fails with a syntax error on any other character
  or on the empty string, and with a range error when the value leaves 64 bits; the signed
  result must fit \<^verbatim>\<open>int64\<close>.
\<close>

fun Split :: "string \<Rightarrow> char \<Rightarrow> string list" where
  "Split [] sep = [[]]"
| "Split (c # cs) sep =
     (if c = sep then [] # Split cs sep
      else (case Split cs sep of p # ps \<Rightarrow> (c # p) # ps | [] \<Rightarrow> [[c]]))"

definition digit_char :: "nat \<Rightarrow> char" where
  "digit_char d = ''0123456789'' ! d"

fun digits :: "nat \<Rightarrow> string" where
  "digits n = (if n < 10 then [digit_char n] else digits (n div 10) @ [digit_char (n mod 10)])"

definition FormatInt :: "int \<Rightarrow> string" where
  "FormatInt i = (if i < 0 then CHR ''-'' # digits (nat (- i)) else digits (nat i))"

datatype NumError = ErrSyntax | ErrRange

definition digit_val :: "char \<Rightarrow> nat option" where
  "digit_val c = (if 48 \<le> (of_char c :: nat) \<and> (of_char c :: nat) \<le> 57 then Some (of_char c - 48) else None)"

definition cutoff64 :: nat where
  "cutoff64 = (2 ^ 64 - 1) div 10 + 1"

fun ParseUint_loop :: "string \<Rightarrow> nat \<Rightarrow> NumError + nat" where
  "ParseUint_loop [] n = Inr n"
| "ParseUint_loop (c # cs) n =
     (case digit_val c of
        None \<Rightarrow> Inl ErrSyntax
      | Some d \<Rightarrow>
          if n \<ge> cutoff64 then Inl ErrRange
          else let n1 = n * 10 + d in
               if n1 \<ge> 2 ^ 64 then Inl ErrRange else ParseUint_loop cs n1)"

definition ParseUint :: "string \<Rightarrow> NumError + nat" where
  "ParseUint s = (if s = [] then Inl ErrSyntax else ParseUint_loop s 0)"

definition ParseInt :: "string \<Rightarrow> NumError + int64" where
  "ParseInt s =
     (if s = [] then Inl ErrSyntax
      else
        let neg = (hd s = CHR ''-'');
            s' = (if hd s = CHR ''+'' \<or> hd s = CHR ''-'' then tl s else s)
        in (case ParseUint s' of
              Inl ErrSyntax \<Rightarrow> Inl ErrSyntax
            | Inl ErrRange \<Rightarrow> Inl ErrRange
            | Inr un \<Rightarrow>
                if \<not> neg \<and> un \<ge> 2 ^ 63 then Inl ErrRange
                else if neg \<and> un > 2 ^ 63 then Inl ErrRange
                else Inr (if neg then - of_nat un else of_nat un)))"

text \<open>
  \<^verbatim>\<open>parseInterval\<close>: one part is \<open>[n, n+1)\<close>, two parts are \<open>[n, m+1)\<close>, anything else is
  an error; so is a result with \<open>Stop \<le> Start\<close>. \<^verbatim>\<open>Interval.String\<close> prints \<open>n\<close> when
  \<open>Stop = Start + 1\<close> and \<open>n-m\<close> with \<open>m = Stop - 1\<close> otherwise.
\<close>

datatype IntervalError = NumErr NumError | InvalidFormat | InvalidEnd

definition parseInterval :: "string \<Rightarrow> IntervalError + Interval" where
  "parseInterval str =
     (let p = Split str CHR ''-'';
          r = (case p of
                 [p0] \<Rightarrow>
                   (case ParseInt p0 of
                      Inl e \<Rightarrow> Inl (NumErr e)
                    | Inr start \<Rightarrow> Inr \<lparr>Start = start, Stop = start + 1\<rparr>)
               | [p0, p1] \<Rightarrow>
                   (case ParseInt p0 of
                      Inl e \<Rightarrow> Inl (NumErr e)
                    | Inr start \<Rightarrow>
                        (case ParseInt p1 of
                           Inl e \<Rightarrow> Inl (NumErr e)
                         | Inr stop \<Rightarrow> Inr \<lparr>Start = start, Stop = stop + 1\<rparr>))
               | _ \<Rightarrow> Inl InvalidFormat)
      in (case r of
            Inl e \<Rightarrow> Inl e
          | Inr i \<Rightarrow> if Stop i \<le>s Start i then Inl InvalidEnd else Inr i))"

definition Interval_String :: "Interval \<Rightarrow> string" where
  "Interval_String i =
     (if Stop i = Start i + 1 then FormatInt (sint (Start i))
      else FormatInt (sint (Start i)) @ ''-'' @ FormatInt (sint (Stop i - 1)))"

section \<open>Tagged GTID event (replication)\<close>

text \<open>
  \<^verbatim>\<open>GtidTaggedLogEvent.Decode\<close> reads a message of the field serialization format. The
  serialization package is not part of the sources at hand, so \<^verbatim>\<open>serialization.Unmarshal\<close>
  and \<^verbatim>\<open>Message.GetFieldByName\<close> are parameters of the model. A field carries its name, its
  typed value (the Go interface \<^verbatim>\<open>FieldType\<close> with the four implementations the event uses,
  or no type at all), and the flags \<^verbatim>\<open>Optional\<close> and \<^verbatim>\<open>Skipped\<close>.
\<close>

datatype FieldType =
    FieldIntFixed nat "8 word list"
  | FieldIntVar "64 word"
  | FieldUintVar "64 word"
  | FieldString string
  | NoFieldType

record Field =
  Name :: string
  Type :: FieldType
  Optional :: bool
  Skipped :: bool

type_synonym Message = "Field list"

text \<open>The format the event declares: twelve fields, three of them optional.\<close>

definition mkField :: "string \<Rightarrow> FieldType \<Rightarrow> bool \<Rightarrow> Field" where
  "mkField name ty opt = \<lparr>Name = name, Type = ty, Optional = opt, Skipped = False\<rparr>"

definition gtid_tagged_format :: Message where
  "gtid_tagged_format =
     [mkField ''gtid_flags'' (FieldIntFixed 1 []) False,
      mkField ''uuid'' (FieldIntFixed 16 []) False,
      mkField ''gno'' (FieldIntVar 0) False,
      mkField ''tag'' (FieldString []) False,
      mkField ''last_committed'' (FieldIntVar 0) False,
      mkField ''sequence_number'' (FieldIntVar 0) False,
      mkField ''immediate_commit_timestamp'' (FieldUintVar 0) False,
      mkField ''original_commit_timestamp'' (FieldUintVar 0) True,
      mkField ''transaction_length'' (FieldUintVar 0) False,
      mkField ''immediate_server_version'' (FieldUintVar 0) False,
      mkField ''original_server_version'' (FieldUintVar 0) True,
      mkField ''commit_group_ticket'' NoFieldType True]"

record GTIDEvent =
  CommitFlag :: "8 word"
  GTIDEvent_SID :: "8 word list"
  Tag :: string
  GNO :: "64 word"
  LastCommitted :: "64 word"
  SequenceNumber :: "64 word"
  ImmediateCommitTimestamp :: "64 word"
  OriginalCommitTimestamp :: "64 word"
  TransactionLength :: "64 word"
  ImmediateServerVersion :: "32 word"
  OriginalServerVersion :: "32 word"

text \<open>
  The errors \<^verbatim>\<open>Decode\<close> returns: the one of \<^verbatim>\<open>Unmarshal\<close>, the one of \<^verbatim>\<open>GetFieldByName\<close>,
  \<^verbatim>\<open>errors.New("failed to get ... field")\<close> when the type assertion fails, and the panic of
  \<^verbatim>\<open>v.Value[0]\<close> on an empty value. Each block of the source (look the field up, assert its
  type, store the value) is one \<open>decode_...\<close> step; \<^verbatim>\<open>Decode\<close> runs them in the source's
  order and stops at the first error.
\<close>

datatype 'e TaggedError =
    UnmarshalError 'e
  | FieldError 'e
  | FailedToGet string
  | IndexOutOfRange

definition andThen :: "'e + 'a \<Rightarrow> ('a \<Rightarrow> 'e + 'b) \<Rightarrow> 'e + 'b" where
  "andThen r f = (case r of Inl e \<Rightarrow> Inl e | Inr x \<Rightarrow> f x)"

definition getField :: "(Message \<Rightarrow> string \<Rightarrow> 'e + Field) \<Rightarrow> Message \<Rightarrow> string \<Rightarrow> 'e TaggedError + Field" where
  "getField GetFieldByName msg name =
     (case GetFieldByName msg name of Inl err \<Rightarrow> Inl (FieldError err) | Inr f \<Rightarrow> Inr f)"

definition decode_gtid_flags ::
  "(Message \<Rightarrow> string \<Rightarrow> 'e + Field) \<Rightarrow> Message \<Rightarrow> GTIDEvent \<Rightarrow> 'e TaggedError + GTIDEvent" where
  "decode_gtid_flags GetFieldByName msg e =
     andThen (getField GetFieldByName msg ''gtid_flags'') (\<lambda>f.
       case Type f of
         FieldIntFixed _ v \<Rightarrow> (case v of [] \<Rightarrow> Inl IndexOutOfRange | b # _ \<Rightarrow> Inr (e\<lparr>CommitFlag := b\<rparr>))
       | _ \<Rightarrow> Inl (FailedToGet ''gtid_flags''))"

definition decode_uuid ::
  "(Message \<Rightarrow> string \<Rightarrow> 'e + Field) \<Rightarrow> Message \<Rightarrow> GTIDEvent \<Rightarrow> 'e TaggedError + GTIDEvent" where
  "decode_uuid GetFieldByName msg e =
     andThen (getField GetFieldByName msg ''uuid'') (\<lambda>f.
       case Type f of
         FieldIntFixed _ v \<Rightarrow> Inr (e\<lparr>GTIDEvent_SID := v\<rparr>)
       | _ \<Rightarrow> Inl (FailedToGet ''uuid''))"

definition decode_gno ::
  "(Message \<Rightarrow> string \<Rightarrow> 'e + Field) \<Rightarrow> Message \<Rightarrow> GTIDEvent \<Rightarrow> 'e TaggedError + GTIDEvent" where
  "decode_gno GetFieldByName msg e =
     andThen (getField GetFieldByName msg ''gno'') (\<lambda>f.
       case Type f of
         FieldIntVar v \<Rightarrow> Inr (e\<lparr>GNO := v\<rparr>)
       | _ \<Rightarrow> Inl (FailedToGet ''gno''))"

definition decode_tag ::
  "(Message \<Rightarrow> string \<Rightarrow> 'e + Field) \<Rightarrow> Message \<Rightarrow> GTIDEvent \<Rightarrow> 'e TaggedError + GTIDEvent" where
  "decode_tag GetFieldByName msg e =
     andThen (getField GetFieldByName msg ''tag'') (\<lambda>f.
       case Type f of
         FieldString v \<Rightarrow> Inr (e\<lparr>Tag := v\<rparr>)
       | _ \<Rightarrow> Inl (FailedToGet ''tag''))"

definition decode_last_committed ::
  "(Message \<Rightarrow> string \<Rightarrow> 'e + Field) \<Rightarrow> Message \<Rightarrow> GTIDEvent \<Rightarrow> 'e TaggedError + GTIDEvent" where
  "decode_last_committed GetFieldByName msg e =
     andThen (getField GetFieldByName msg ''last_committed'') (\<lambda>f.
       case Type f of
         FieldIntVar v \<Rightarrow> Inr (e\<lparr>LastCommitted := v\<rparr>)
       | _ \<Rightarrow> Inl (FailedToGet ''last_committed''))"

definition decode_sequence_number ::
  "(Message \<Rightarrow> string \<Rightarrow> 'e + Field) \<Rightarrow> Message \<Rightarrow> GTIDEvent \<Rightarrow> 'e TaggedError + GTIDEvent" where
  "decode_sequence_number GetFieldByName msg e =
     andThen (getField GetFieldByName msg ''sequence_number'') (\<lambda>f.
       case Type f of
         FieldIntVar v \<Rightarrow> Inr (e\<lparr>SequenceNumber := v\<rparr>)
       | _ \<Rightarrow> Inl (FailedToGet ''sequence_number''))"

definition decode_immediate_commit_timestamp ::
  "(Message \<Rightarrow> string \<Rightarrow> 'e + Field) \<Rightarrow> Message \<Rightarrow> GTIDEvent \<Rightarrow> 'e TaggedError + GTIDEvent" where
  "decode_immediate_commit_timestamp GetFieldByName msg e =
     andThen (getField GetFieldByName msg ''immediate_commit_timestamp'') (\<lambda>f.
       case Type f of
         FieldUintVar v \<Rightarrow> Inr (e\<lparr>ImmediateCommitTimestamp := v\<rparr>)
       | _ \<Rightarrow> Inl (FailedToGet ''immediate_commit_timestamp''))"

definition decode_original_commit_timestamp ::
  "(Message \<Rightarrow> string \<Rightarrow> 'e + Field) \<Rightarrow> Message \<Rightarrow> GTIDEvent \<Rightarrow> 'e TaggedError + GTIDEvent" where
  "decode_original_commit_timestamp GetFieldByName msg e =
     andThen (getField GetFieldByName msg ''original_commit_timestamp'') (\<lambda>f.
       case Type f of
         FieldUintVar v \<Rightarrow> (if Skipped f then Inr (e\<lparr>OriginalCommitTimestamp := ImmediateCommitTimestamp e\<rparr>)
                 else Inr (e\<lparr>OriginalCommitTimestamp := v\<rparr>))
       | _ \<Rightarrow> Inl (FailedToGet ''original_commit_timestamp''))"

definition decode_immediate_server_version ::
  "(Message \<Rightarrow> string \<Rightarrow> 'e + Field) \<Rightarrow> Message \<Rightarrow> GTIDEvent \<Rightarrow> 'e TaggedError + GTIDEvent" where
  "decode_immediate_server_version GetFieldByName msg e =
     andThen (getField GetFieldByName msg ''immediate_server_version'') (\<lambda>f.
       case Type f of
         FieldUintVar v \<Rightarrow> Inr (e\<lparr>ImmediateServerVersion := ucast v\<rparr>)
       | _ \<Rightarrow> Inl (FailedToGet ''immediate_server_version''))"

definition decode_original_server_version ::
  "(Message \<Rightarrow> string \<Rightarrow> 'e + Field) \<Rightarrow> Message \<Rightarrow> GTIDEvent \<Rightarrow> 'e TaggedError + GTIDEvent" where
  "decode_original_server_version GetFieldByName msg e =
     andThen (getField GetFieldByName msg ''original_server_version'') (\<lambda>f.
       case Type f of
         FieldUintVar v \<Rightarrow> (if Skipped f then Inr (e\<lparr>OriginalServerVersion := ImmediateServerVersion e\<rparr>)
                 else Inr (e\<lparr>OriginalServerVersion := ucast v\<rparr>))
       | _ \<Rightarrow> Inl (FailedToGet ''original_server_version''))"

definition decode_transaction_length ::
  "(Message \<Rightarrow> string \<Rightarrow> 'e + Field) \<Rightarrow> Message \<Rightarrow> GTIDEvent \<Rightarrow> 'e TaggedError + GTIDEvent" where
  "decode_transaction_length GetFieldByName msg e =
     andThen (getField GetFieldByName msg ''transaction_length'') (\<lambda>f.
       case Type f of
         FieldUintVar v \<Rightarrow> Inr (e\<lparr>TransactionLength := v\<rparr>)
       | _ \<Rightarrow> Inl (FailedToGet ''transaction_length''))"

definition GtidTaggedLogEvent_Decode ::
  "('b \<Rightarrow> Message \<Rightarrow> 'e + Message) \<Rightarrow> (Message \<Rightarrow> string \<Rightarrow> 'e + Field) \<Rightarrow>
   GTIDEvent \<Rightarrow> 'b \<Rightarrow> 'e TaggedError + GTIDEvent" where
  "GtidTaggedLogEvent_Decode Unmarshal GetFieldByName e data =
     andThen (case Unmarshal data gtid_tagged_format of
                Inl err \<Rightarrow> Inl (UnmarshalError err) | Inr msg \<Rightarrow> Inr msg) (\<lambda>msg.
     andThen (decode_gtid_flags GetFieldByName msg e) (\<lambda>e.
     andThen (decode_uuid GetFieldByName msg e) (\<lambda>e.
     andThen (decode_gno GetFieldByName msg e) (\<lambda>e.
     andThen (decode_tag GetFieldByName msg e) (\<lambda>e.
     andThen (decode_last_committed GetFieldByName msg e) (\<lambda>e.
     andThen (decode_sequence_number GetFieldByName msg e) (\<lambda>e.
     andThen (decode_immediate_commit_timestamp GetFieldByName msg e) (\<lambda>e.
     andThen (decode_original_commit_timestamp GetFieldByName msg e) (\<lambda>e.
     andThen (decode_immediate_server_version GetFieldByName msg e) (\<lambda>e.
     andThen (decode_original_server_version GetFieldByName msg e) (\<lambda>e.
     andThen (decode_transaction_length GetFieldByName msg e) (\<lambda>e.
     Inr e))))))))))))"

text \<open>
  A message for the examples: every optional field is marked skipped. \<open>GetFieldByName_first\<close>
  returns the first field of the name.
\<close>

definition GetFieldByName_first :: "Message \<Rightarrow> string \<Rightarrow> string + Field" where
  "GetFieldByName_first msg name =
     (case find (\<lambda>f. Name f = name) msg of
        Some f \<Rightarrow> Inr f
      | None \<Rightarrow> Inl (''field not found: '' @ name))"

definition skipped_message :: Message where
  "skipped_message =
     [mkField ''gtid_flags'' (FieldIntFixed 1 [1]) False,
      mkField ''uuid'' (FieldIntFixed 16 (replicate 16 0)) False,
      mkField ''gno'' (FieldIntVar 7) False,
      mkField ''tag'' (FieldString ''t'') False,
      mkField ''last_committed'' (FieldIntVar 5) False,
      mkField ''sequence_number'' (FieldIntVar 6) False,
      mkField ''immediate_commit_timestamp'' (FieldUintVar 1700000000000000) False,
      (mkField ''original_commit_timestamp'' (FieldUintVar 0) True)\<lparr>Skipped := True\<rparr>,
      mkField ''transaction_length'' (FieldUintVar 300) False,
      mkField ''immediate_server_version'' (FieldUintVar 80300) False,
      (mkField ''original_server_version'' (FieldUintVar 0) True)\<lparr>Skipped := True\<rparr>,
      (mkField ''commit_group_ticket'' NoFieldType True)\<lparr>Skipped := True\<rparr>]"

definition zero_event :: GTIDEvent where
  "zero_event = \<lparr>CommitFlag = 0, GTIDEvent_SID = [], Tag = [], GNO = 0, LastCommitted = 0,
     SequenceNumber = 0, ImmediateCommitTimestamp = 0, OriginalCommitTimestamp = 0,
     TransactionLength = 0, ImmediateServerVersion = 0, OriginalServerVersion = 0\<rparr>"

section \<open>JSON diff records (replication/json_binary.go)\<close>

text \<open>
  \<^verbatim>\<open>RowsEvent.decodeJsonPartialBinary\<close>. Two functions it calls are parameters:
  \<^verbatim>\<open>mysql.LengthEncodedInt\<close>, which is not among the sources at hand (it returns the number,
  a null flag and how many bytes it read; \<open>None\<close> stands for a panic inside it), and
  \<^verbatim>\<open>decodeJsonBinary\<close>, the JSON-binary decoder, whose text output depends on floating-point
  formatting; the only use made of it here is that its error is wrapped by
  \<^verbatim>\<open>fmt.Errorf("cannot read json diff for field %q: %w", path, err)\<close> and its bytes become
  the diff's \<open>Value\<close>. No function of the file but this one returns \<^verbatim>\<open>ErrCorruptedJSONDiff\<close>.
  A slice expression out of range and \<^verbatim>\<open>data[0]\<close> on empty data panic: \<open>JsonDiffPanic\<close>
  (the slice's capacity is taken to be its length).
\<close>

datatype 'e JsonDiffError =
    ErrCorruptedJSONDiff
  | CannotReadJsonDiff "8 word list" 'e
  | JsonDiffPanic

record JsonDiff =
  Op :: "8 word"
  Path :: "8 word list"
  Value :: "8 word list"

definition JsonDiffOperationReplace :: "8 word" where "JsonDiffOperationReplace = 0"
definition JsonDiffOperationInsert :: "8 word" where "JsonDiffOperationInsert = 1"
definition JsonDiffOperationRemove :: "8 word" where "JsonDiffOperationRemove = 2"

definition decodeJsonPartialBinary ::
  "(8 word list \<Rightarrow> (nat \<times> bool \<times> nat) option) \<Rightarrow> (8 word list \<Rightarrow> 'e + 8 word list) \<Rightarrow>
   8 word list \<Rightarrow> 'e JsonDiffError + JsonDiff" where
  "decodeJsonPartialBinary LengthEncodedInt decodeJsonBinary data =
     (case data of
        [] \<Rightarrow> Inl JsonDiffPanic
      | operationNumber # data1 \<Rightarrow>
          if operationNumber \<noteq> JsonDiffOperationReplace \<and>
             operationNumber \<noteq> JsonDiffOperationInsert \<and>
             operationNumber \<noteq> JsonDiffOperationRemove
          then Inl ErrCorruptedJSONDiff
          else
            (case LengthEncodedInt data1 of
               None \<Rightarrow> Inl JsonDiffPanic
             | Some (pathLength, _, n) \<Rightarrow>
                 if n > length data1 then Inl JsonDiffPanic
                 else
                   let data2 = drop n data1 in
                   if pathLength > length data2 then Inl JsonDiffPanic
                   else
                     let path = take pathLength data2;
                         data3 = drop pathLength data2;
                         diff = \<lparr>Op = operationNumber, Path = path, Value = []\<rparr>
                     in
                     if operationNumber = JsonDiffOperationRemove then Inr diff
                     else
                       (case LengthEncodedInt data3 of
                          None \<Rightarrow> Inl JsonDiffPanic
                        | Some (valueLength, _, n) \<Rightarrow>
                            if n > length data3 then Inl JsonDiffPanic
                            else
                              let data4 = drop n data3 in
                              if valueLength > length data4 then Inl JsonDiffPanic
                              else
                                (case decodeJsonBinary (take valueLength data4) of
                                   Inl err \<Rightarrow> Inl (CannotReadJsonDiff path err)
                                 | Inr d \<Rightarrow> Inr (diff\<lparr>Value := d\<rparr>)))))"

text \<open>A length reader for the examples: the first byte is the length.\<close>

definition first_byte_length :: "8 word list \<Rightarrow> (nat \<times> bool \<times> nat) option" where
  "first_byte_length b = (case b of [] \<Rightarrow> Some (0, True, 0) | x # _ \<Rightarrow> Some (unat x, False, 1))"

section \<open>Format description event (replication)\<close>

text \<open>
  \<^verbatim>\<open>strconv.Atoi\<close> with its error dropped, as \<^verbatim>\<open>splitServerVersion\<close> calls it: the value
  \<^verbatim>\<open>ParseInt\<close> returns, which is 0 on a syntax error and the nearest bound on a range
  error. \<^verbatim>\<open>unicode.IsNumber\<close>, \<^verbatim>\<open>strings.ToLower\<close> and \<^verbatim>\<open>strings.Contains\<close> are modelled
  for ASCII text. The loop of \<^verbatim>\<open>splitServerVersion\<close> is \<open>first_non_number\<close>: it returns the
  index of the first character that is not a number, and \<^verbatim>\<open>index\<close> keeps its initial value 0
  when there is none. Go's \<^verbatim>\<open>int\<close> is 64 bits wide.
\<close>

definition MinInt64 :: int64 where
  "MinInt64 = - 9223372036854775808"

definition Atoi :: "string \<Rightarrow> int64" where
  "Atoi s =
     (case ParseInt s of
        Inr v \<Rightarrow> v
      | Inl ErrSyntax \<Rightarrow> 0
      | Inl ErrRange \<Rightarrow> (if hd s = CHR ''-'' then MinInt64 else MaxInt64))"

definition IsNumber :: "char \<Rightarrow> bool" where
  "IsNumber c \<longleftrightarrow> 48 \<le> (of_char c :: nat) \<and> (of_char c :: nat) \<le> 57"

fun first_non_number :: "string \<Rightarrow> nat \<Rightarrow> nat" where
  "first_non_number [] i = 0"
| "first_non_number (c # cs) i = (if \<not> IsNumber c then i else first_non_number cs (i + 1))"

definition splitServerVersion :: "string \<Rightarrow> int64 list" where
  "splitServerVersion server =
     (let seps = Split server CHR ''.'' in
      if length seps < 3 then [0, 0, 0]
      else
        let x = Atoi (seps ! 0);
            y = Atoi (seps ! 1);
            index = first_non_number (seps ! 2) 0;
            z = Atoi (take index (seps ! 2))
        in [x, y, z])"

definition calcVersionProduct :: "string \<Rightarrow> int64" where
  "calcVersionProduct server =
     (let versionSplit = splitServerVersion server
      in (versionSplit ! 0 * 256 + versionSplit ! 1) * 256 + versionSplit ! 2)"

definition checksumVersionProductMysql :: int64 where
  "checksumVersionProductMysql = (5 * 256 + 6) * 256 + 1"

definition checksumVersionProductMariaDB :: int64 where
  "checksumVersionProductMariaDB = (5 * 256 + 3) * 256 + 0"

definition ToLower_char :: "char \<Rightarrow> char" where
  "ToLower_char c =
     (case map_of (zip ''ABCDEFGHIJKLMNOPQRSTUVWXYZ'' ''abcdefghijklmnopqrstuvwxyz'') c of
        Some l \<Rightarrow> l
      | None \<Rightarrow> c)"

definition ToLower :: "string \<Rightarrow> string" where
  "ToLower s = map ToLower_char s"

fun Contains :: "string \<Rightarrow> string \<Rightarrow> bool" where
  "Contains [] substr = (substr = [])"
| "Contains (c # cs) substr = (take (length substr) (c # cs) = substr \<or> Contains cs substr)"

text \<open>
  \<^verbatim>\<open>FormatDescriptionEvent.Decode\<close>. The event body is a byte slice; an Isabelle \<open>char\<close> is
  one byte, so the body is a \<open>string\<close> here and \<^verbatim>\<open>string(bytes)\<close> is the identity. Every
  index or slice expression out of range is a panic; they all need 57 bytes, and the
  checksum branch needs 62.
\<close>

record FormatDescriptionEvent =
  Version :: "16 word"
  ServerVersion :: string
  CreateTimestamp :: "32 word"
  EventHeaderLength :: "8 word"
  EventTypeHeaderLengths :: string
  ChecksumAlgorithm :: "8 word"

datatype FormatDescriptionError = InvalidEventHeaderLength "8 word" | FormatDescriptionPanic

definition EventHeaderSize :: nat where "EventHeaderSize = 19"

definition BINLOG_CHECKSUM_ALG_UNDEF :: "8 word" where "BINLOG_CHECKSUM_ALG_UNDEF = 255"

definition Uint16 :: "string \<Rightarrow> 16 word" where
  "Uint16 b = of_char (b ! 0) OR push_bit 8 (of_char (b ! 1))"

definition Uint32 :: "string \<Rightarrow> 32 word" where
  "Uint32 b = of_char (b ! 0) OR push_bit 8 (of_char (b ! 1)) OR push_bit 16 (of_char (b ! 2))
     OR push_bit 24 (of_char (b ! 3))"

definition FormatDescriptionEvent_Decode :: "string \<Rightarrow> FormatDescriptionError + FormatDescriptionEvent" where
  "FormatDescriptionEvent_Decode data =
     (if length data < 57 then Inl FormatDescriptionPanic
      else
        let version = Uint16 data;
            serverVersionRaw = take 50 (drop 2 data);
            createTimestamp = Uint32 (drop 52 data);
            eventHeaderLength = (of_char (data ! 56) :: 8 word);
            pos = 57
        in
        if eventHeaderLength \<noteq> of_nat EventHeaderSize then Inl (InvalidEventHeaderLength eventHeaderLength)
        else
          let serverVersion = takeWhile (\<lambda>c. c \<noteq> CHR 0x00) serverVersionRaw;
              checksumProduct =
                (if Contains (ToLower serverVersion) ''mariadb'' then checksumVersionProductMariaDB
                 else checksumVersionProductMysql)
          in
          if checksumProduct \<le>s calcVersionProduct serverVersion then
            (if length data - 5 < pos then Inl FormatDescriptionPanic
             else Inr \<lparr>Version = version, ServerVersion = serverVersion,
                        CreateTimestamp = createTimestamp, EventHeaderLength = eventHeaderLength,
                        EventTypeHeaderLengths = take (length data - 5 - pos) (drop pos data),
                        ChecksumAlgorithm = of_char (data ! (length data - 5))\<rparr>)
          else Inr \<lparr>Version = version, ServerVersion = serverVersion,
                     CreateTimestamp = createTimestamp, EventHeaderLength = eventHeaderLength,
                     EventTypeHeaderLengths = drop pos data,
                     ChecksumAlgorithm = BINLOG_CHECKSUM_ALG_UNDEF\<rparr>)"

text \<open>
  Two event bodies: binlog version 4, the server version padded to 50 bytes, a zero
  timestamp, header length 19, three header lengths, the checksum algorithm byte 1 (CRC32)
  and four checksum bytes. The server versions are \<open>5.6.10\<close> and \<open>5.6.10-log\<close>.
\<close>

definition fde_5_6_10 :: string where
  "fde_5_6_10 =
     [CHR 0x04, CHR 0x00, CHR 0x35, CHR 0x2E, CHR 0x36, CHR 0x2E, CHR 0x31, CHR 0x30,
      CHR 0x00, CHR 0x00, CHR 0x00, CHR 0x00, CHR 0x00, CHR 0x00, CHR 0x00, CHR 0x00,
      CHR 0x00, CHR 0x00, CHR 0x00, CHR 0x00, CHR 0x00, CHR 0x00, CHR 0x00, CHR 0x00,
      CHR 0x00, CHR 0x00, CHR 0x00, CHR 0x00, CHR 0x00, CHR 0x00, CHR 0x00, CHR 0x00,
      CHR 0x00, CHR 0x00, CHR 0x00, CHR 0x00, CHR 0x00, CHR 0x00, CHR 0x00, CHR 0x00,
      CHR 0x00, CHR 0x00, CHR 0x00, CHR 0x00, CHR 0x00, CHR 0x00, CHR 0x00, CHR 0x00,
      CHR 0x00, CHR 0x00, CHR 0x00, CHR 0x00, CHR 0x00, CHR 0x00, CHR 0x00, CHR 0x00,
      CHR 0x13, CHR 0x38, CHR 0x0D, CHR 0x00, CHR 0x01, CHR 0xAA, CHR 0xBB, CHR 0xCC,
      CHR 0xDD]"

definition fde_5_6_10_log :: string where
  "fde_5_6_10_log =
     [CHR 0x04, CHR 0x00, CHR 0x35, CHR 0x2E, CHR 0x36, CHR 0x2E, CHR 0x31, CHR 0x30,
      CHR 0x2D, CHR 0x6C, CHR 0x6F, CHR 0x67, CHR 0x00, CHR 0x00, CHR 0x00, CHR 0x00,
      CHR 0x00, CHR 0x00, CHR 0x00, CHR 0x00, CHR 0x00, CHR 0x00, CHR 0x00, CHR 0x00,
      CHR 0x00, CHR 0x00, CHR 0x00, CHR 0x00, CHR 0x00, CHR 0x00, CHR 0x00, CHR 0x00,
      CHR 0x00, CHR 0x00, CHR 0x00, CHR 0x00, CHR 0x00, CHR 0x00, CHR 0x00, CHR 0x00,
      CHR 0x00, CHR 0x00, CHR 0x00, CHR 0x00, CHR 0x00, CHR 0x00, CHR 0x00, CHR 0x00,
      CHR 0x00, CHR 0x00, CHR 0x00, CHR 0x00, CHR 0x00, CHR 0x00, CHR 0x00, CHR 0x00,
      CHR 0x13, CHR 0x38, CHR 0x0D, CHR 0x00, CHR 0x01, CHR 0xAA, CHR 0xBB, CHR 0xCC,
      CHR 0xDD]"

section \<open>Binary form of a GTID set\<close>

text \<open>
  \<^verbatim>\<open>binary.Write(w, binary.LittleEndian, v)\<close> for a 64-bit value writes its eight bytes,
  lowest first (\<open>PutUint64\<close>); \<^verbatim>\<open>binary.LittleEndian.Uint64(b)\<close> reads them back.
  \<^verbatim>\<open>UUIDSet.encode\<close> writes the 16 bytes of the UUID, the number of intervals as
  \<^verbatim>\<open>int64\<close>, and each interval's \<open>Start\<close> and \<open>Stop\<close>. \<^verbatim>\<open>MysqlGTIDSet.Encode\<close> writes the
  number of map entries and then every entry in the order in which Go's \<^verbatim>\<open>range\<close> visits
  the map; that order is not fixed, so the entries come as a list in visiting order.
\<close>

definition PutUint64 :: "64 word \<Rightarrow> 8 word list" where
  "PutUint64 v =
     [ucast v, ucast (drop_bit 8 v), ucast (drop_bit 16 v), ucast (drop_bit 24 v),
      ucast (drop_bit 32 v), ucast (drop_bit 40 v), ucast (drop_bit 48 v), ucast (drop_bit 56 v)]"

definition Uint64 :: "8 word list \<Rightarrow> 64 word" where
  "Uint64 b =
     ucast (b ! 0) OR push_bit 8 (ucast (b ! 1)) OR push_bit 16 (ucast (b ! 2)) OR
     push_bit 24 (ucast (b ! 3)) OR push_bit 32 (ucast (b ! 4)) OR push_bit 40 (ucast (b ! 5)) OR
     push_bit 48 (ucast (b ! 6)) OR push_bit 56 (ucast (b ! 7))"

definition encode_interval :: "Interval \<Rightarrow> 8 word list" where
  "encode_interval i = PutUint64 (Start i) @ PutUint64 (Stop i)"

definition UUIDSet_encode :: "UUIDSet \<Rightarrow> 8 word list" where
  "UUIDSet_encode s =
     SID s @ PutUint64 (of_nat (length (Intervals s))) @ concat (map encode_interval (Intervals s))"

definition MysqlGTIDSet_Encode :: "(string \<times> UUIDSet) list \<Rightarrow> 8 word list" where
  "MysqlGTIDSet_Encode sets =
     PutUint64 (of_nat (length sets)) @ concat (map (\<lambda>(i, set'). UUIDSet_encode set') sets)"

text \<open>
  \<^verbatim>\<open>UUIDSet.decode\<close>: at least 24 bytes; the interval count \<open>n\<close> is read as \<^verbatim>\<open>int64\<close>; the
  buffer must hold \<^verbatim>\<open>int(16*n)+pos\<close> bytes (64-bit arithmetic, which wraps);
  \<^verbatim>\<open>make([]Interval, 0, n)\<close> panics for a negative \<open>n\<close>; the loop reads \<open>n\<close> intervals,
  and a slice expression past the end of the buffer panics (a capacity beyond the
  allocator's limit makes \<^verbatim>\<open>make\<close> panic before; either way the call panics). It returns
  the set and the position reached. \<^verbatim>\<open>DecodeMysqlGTIDSet\<close> reads the entry count as \<^verbatim>\<open>int\<close>
  and adds one decoded set after the other with \<^verbatim>\<open>AddSet\<close>; a count that is not positive
  runs the loop zero times.
\<close>

datatype DecodeError = InvalidBuffer | DecodePanic

fun decode_intervals :: "nat \<Rightarrow> 8 word list \<Rightarrow> IntervalSlice option" where
  "decode_intervals 0 data = Some []"
| "decode_intervals (Suc k) data =
     (if length data < 16 then None
      else (case decode_intervals k (drop 16 data) of
              None \<Rightarrow> None
            | Some rest \<Rightarrow> Some (\<lparr>Start = Uint64 (take 8 data), Stop = Uint64 (take 8 (drop 8 data))\<rparr> # rest)))"

definition UUIDSet_decode :: "8 word list \<Rightarrow> DecodeError + (UUIDSet \<times> nat)" where
  "UUIDSet_decode data =
     (if length data < 24 then Inl InvalidBuffer
      else
        let sid = take 16 data;
            n = Uint64 (take 8 (drop 16 data));
            pos = 24
        in
        if int (length data) < sint (16 * n + of_nat pos) then Inl InvalidBuffer
        else if n <s 0 then Inl DecodePanic
        else (case decode_intervals (nat (sint n)) (drop pos data) of
                None \<Rightarrow> Inl DecodePanic
              | Some intervals \<Rightarrow>
                  Inr (\<lparr>SID = sid, Intervals = intervals\<rparr>, pos + 16 * nat (sint n))))"

fun decode_sets :: "nat \<Rightarrow> 8 word list \<Rightarrow> MysqlGTIDSet \<Rightarrow> DecodeError + MysqlGTIDSet" where
  "decode_sets 0 data s = Inr s"
| "decode_sets (Suc k) data s =
     (case UUIDSet_decode data of
        Inl err \<Rightarrow> Inl err
      | Inr (set', n) \<Rightarrow> decode_sets k (drop n data) (AddSet s (Some set')))"

definition DecodeMysqlGTIDSet :: "8 word list \<Rightarrow> DecodeError + MysqlGTIDSet" where
  "DecodeMysqlGTIDSet data =
     (if length data < 8 then Inl InvalidBuffer
      else
        let n = Uint64 data
        in decode_sets (nat (sint n)) (drop 8 data) \<lparr>Sets = Map.empty\<rparr>)"

text \<open>
  The entries of a set as the data model has them: no key twice, every key the string of
  the UUID it maps to, every UUID 16 bytes long. \<open>encode_sets\<close> is the part of the encoding
  after the entry count.
\<close>

definition keyed_by_SID :: "(string \<times> UUIDSet) list \<Rightarrow> bool" where
  "keyed_by_SID sets \<longleftrightarrow>
     distinct (map fst sets) \<and>
     list_all (\<lambda>(k, v). k = UUID_String (SID v) \<and> length (SID v) = 16) sets"

definition encode_sets :: "(string \<times> UUIDSet) list \<Rightarrow> 8 word list" where
  "encode_sets sets = concat (map (\<lambda>(i, set'). UUIDSet_encode set') sets)"

section \<open>Text form of a GTID set\<close>

text \<open>
  \<^verbatim>\<open>uuid.Parse\<close> of the uuid library: the table \<^verbatim>\<open>xvalues\<close> gives a hexadecimal digit its
  value (\<open>None\<close> stands for the entry 255 of every other byte), \<^verbatim>\<open>xtob\<close> joins two digits
  to a byte. A string of 36 characters must have hyphens at 8, 13, 18 and 23 and digits
  elsewhere; 45 characters are a \<^verbatim>\<open>urn:uuid:\<close> prefix (compared with \<^verbatim>\<open>strings.EqualFold\<close>)
  before such a string, 38 characters one more character on either side (later releases
  of the library also want these two to be braces), 32 characters the digits alone.
  \<^verbatim>\<open>UUID.String\<close> prints 36 characters, so only the first case is met below.
\<close>

definition xvalue :: "char \<Rightarrow> 8 word option" where
  "xvalue c =
     map_of (zip ''0123456789abcdefABCDEF''
       [0, 1, 2, 3, 4, 5, 6, 7, 8, 9, 10, 11, 12, 13, 14, 15, 10, 11, 12, 13, 14, 15]) c"

definition xtob :: "char \<Rightarrow> char \<Rightarrow> 8 word option" where
  "xtob x1 x2 =
     (case xvalue x1 of
        None \<Rightarrow> None
      | Some b1 \<Rightarrow> (case xvalue x2 of None \<Rightarrow> None | Some b2 \<Rightarrow> Some (push_bit 4 b1 OR b2)))"

datatype UUIDError = InvalidUUIDLength nat | InvalidUrnPrefix | InvalidUUIDFormat

fun xtob_all :: "string \<Rightarrow> nat list \<Rightarrow> UUIDError + UUID" where
  "xtob_all s [] = Inr []"
| "xtob_all s (x # xs) =
     (case xtob (s ! x) (s ! (x + 1)) of
        None \<Rightarrow> Inl InvalidUUIDFormat
      | Some v \<Rightarrow> (case xtob_all s xs of Inl e \<Rightarrow> Inl e | Inr vs \<Rightarrow> Inr (v # vs)))"

definition UUID_Parse_hyphenated :: "string \<Rightarrow> UUIDError + UUID" where
  "UUID_Parse_hyphenated s =
     (if s ! 8 \<noteq> CHR ''-'' \<or> s ! 13 \<noteq> CHR ''-'' \<or> s ! 18 \<noteq> CHR ''-'' \<or> s ! 23 \<noteq> CHR ''-''
      then Inl InvalidUUIDFormat
      else xtob_all s [0, 2, 4, 6, 9, 11, 14, 16, 19, 21, 24, 26, 28, 30, 32, 34])"

definition UUID_Parse :: "string \<Rightarrow> UUIDError + UUID" where
  "UUID_Parse s =
     (if length s = 36 then UUID_Parse_hyphenated s
      else if length s = 36 + 9 then
        (if ToLower (take 9 s) \<noteq> ''urn:uuid:'' then Inl InvalidUrnPrefix
         else UUID_Parse_hyphenated (drop 9 s))
      else if length s = 36 + 2 then UUID_Parse_hyphenated (drop 1 s)
      else if length s = 32 then
        xtob_all s [0, 2, 4, 6, 8, 10, 12, 14, 16, 18, 20, 22, 24, 26, 28, 30]
      else Inl (InvalidUUIDLength (length s)))"

text \<open>
  \<^verbatim>\<open>strings.TrimSpace\<close> for ASCII text: white space is tab, line feed, vertical tab, form
  feed, carriage return and space. \<^verbatim>\<open>ParseUUIDSet\<close> trims, splits at the colons, needs at
  least two parts, parses the UUID and every interval, stopping at the first error, and
  normalizes. \<^verbatim>\<open>ParseMysqlGTIDSet\<close> returns the empty set for the empty string and otherwise
  adds the set of every comma-separated piece with \<^verbatim>\<open>AddSet\<close>.
\<close>

definition isSpace :: "char \<Rightarrow> bool" where
  "isSpace c \<longleftrightarrow> c \<in> set [CHR 0x09, CHR 0x0A, CHR 0x0B, CHR 0x0C, CHR 0x0D, CHR '' '']"

definition TrimSpace :: "string \<Rightarrow> string" where
  "TrimSpace s = rev (dropWhile isSpace (rev (dropWhile isSpace s)))"

datatype GTIDError = InvalidGTIDFormat | UUIDErr UUIDError | IntervalErr IntervalError

fun parse_intervals :: "string list \<Rightarrow> IntervalError + IntervalSlice" where
  "parse_intervals [] = Inr []"
| "parse_intervals (x # xs) =
     (case parseInterval x of
        Inl e \<Rightarrow> Inl e
      | Inr i \<Rightarrow> (case parse_intervals xs of Inl e \<Rightarrow> Inl e | Inr is \<Rightarrow> Inr (i # is)))"

definition ParseUUIDSet :: "string \<Rightarrow> GTIDError + UUIDSet" where
  "ParseUUIDSet str =
     (let str = TrimSpace str;
          sep = Split str CHR '':''
      in if length sep < 2 then Inl InvalidGTIDFormat
         else (case UUID_Parse (sep ! 0) of
                 Inl e \<Rightarrow> Inl (UUIDErr e)
               | Inr sid \<Rightarrow>
                   (case parse_intervals (drop 1 sep) of
                      Inl e \<Rightarrow> Inl (IntervalErr e)
                    | Inr ins \<Rightarrow> Inr \<lparr>SID = sid, Intervals = Normalize ins\<rparr>)))"

fun parse_sets :: "string list \<Rightarrow> MysqlGTIDSet \<Rightarrow> GTIDError + MysqlGTIDSet" where
  "parse_sets [] s = Inr s"
| "parse_sets (sp_i # sp) s =
     (case ParseUUIDSet sp_i of
        Inl e \<Rightarrow> Inl e
      | Inr set' \<Rightarrow> parse_sets sp (AddSet s (Some set')))"

definition ParseMysqlGTIDSet :: "string \<Rightarrow> GTIDError + MysqlGTIDSet" where
  "ParseMysqlGTIDSet str =
     (if str = [] then Inr \<lparr>Sets = Map.empty\<rparr>
      else parse_sets (Split str CHR '','') \<lparr>Sets = Map.empty\<rparr>)"

text \<open>
  \<^verbatim>\<open>UUIDSet.String\<close> is the UUID followed by a colon and the text of each interval.
  \<^verbatim>\<open>MysqlGTIDSet.String\<close> returns the string of the only entry when there is one; otherwise
  it collects the entries' strings in the order in which \<^verbatim>\<open>range\<close> visits the map (the
  argument is the list of entries in that order), sorts them with \<^verbatim>\<open>sort.Strings\<close>
  (bytewise lexicographic order) and joins them with commas.
\<close>

definition UUIDSet_String :: "UUIDSet \<Rightarrow> string" where
  "UUIDSet_String s = UUID_String (SID s) @ concat (map (\<lambda>i. '':'' @ Interval_String i) (Intervals s))"

fun Join :: "string list \<Rightarrow> string \<Rightarrow> string" where
  "Join [] sep = []"
| "Join [x] sep = x"
| "Join (x # y # ys) sep = x @ sep @ Join (y # ys) sep"

definition MysqlGTIDSet_String :: "(string \<times> UUIDSet) list \<Rightarrow> string" where
  "MysqlGTIDSet_String sets =
     (if length sets = 1 then UUIDSet_String (snd (sets ! 0))
      else Join (sort (map (\<lambda>(k, set'). UUIDSet_String set') sets)) '','')"

text \<open>
  A set can be printed and read back when it has at least one interval, its intervals are
  valid and normalized, and none starts below 0. \<open>entry_string\<close> is the string of a map
  entry; \<open>plain\<close> and \<open>piece_char\<close> describe the characters that occur in it.
\<close>

definition printable :: "UUIDSet \<Rightarrow> bool" where
  "printable v \<longleftrightarrow>
     Intervals v \<noteq> [] \<and>
     list_all valid_interval (Intervals v) \<and>
     normalized (Intervals v) \<and>
     list_all (\<lambda>i. 0 \<le>s Start i) (Intervals v)"

definition entry_string :: "string \<times> UUIDSet \<Rightarrow> string" where
  "entry_string kv = UUIDSet_String (snd kv)"

definition plain :: "char \<Rightarrow> bool" where
  "plain c \<longleftrightarrow> c \<noteq> CHR '','' \<and> c \<noteq> CHR '':'' \<and> \<not> isSpace c"

definition piece_char :: "char \<Rightarrow> bool" where
  "piece_char c \<longleftrightarrow> c \<noteq> CHR '','' \<and> \<not> isSpace c"

text \<open>
  Examples: two UUIDs, a set of two entries, and a set whose only entry has no interval
  (what \<^verbatim>\<open>DecodeMysqlGTIDSet\<close> returns for an entry with interval count 0, or \<^verbatim>\<open>AddSet\<close>
  of \<^verbatim>\<open>NewUUIDSet(sid)\<close>).
\<close>

definition example_uuid :: UUID where
  "example_uuid = [0x3e, 0x11, 0xfa, 0x47, 0x71, 0xca, 0x11, 0xe1, 0x9e, 0x33, 0xc8, 0x0a, 0xa9, 0x42, 0x95, 0x62]"

definition example_uuid2 :: UUID where
  "example_uuid2 = [0x00, 0x0c, 0xfa, 0x47, 0x71, 0xca, 0x11, 0xe1, 0x9e, 0x33, 0xc8, 0x0a, 0xa9, 0x42, 0x95, 0x63]"

definition example_sets :: "(string \<times> UUIDSet) list" where
  "example_sets =
     [(UUID_String example_uuid,
         \<lparr>SID = example_uuid, Intervals = [\<lparr>Start = 1, Stop = 6\<rparr>, \<lparr>Start = 10, Stop = 11\<rparr>]\<rparr>),
      (UUID_String example_uuid2,
         \<lparr>SID = example_uuid2, Intervals = [\<lparr>Start = 7, Stop = 8\<rparr>]\<rparr>)]"

definition empty_interval_sets :: "(string \<times> UUIDSet) list" where
  "empty_interval_sets = [(UUID_String example_uuid, \<lparr>SID = example_uuid, Intervals = []\<rparr>)]"

section \<open>Pool limits: theorems\<close>

lemma clampLimits_ok:
  "minAlive (clampLimits po) \<le> maxAlive (clampLimits po) \<and>
   maxIdle (clampLimits po) \<le> maxAlive (clampLimits po) \<and>
   minAlive (clampLimits po) \<le> maxIdle (clampLimits po)"
  by (simp add: clampLimits_def Let_def)

text \<open>
  Claim C7. Whatever options are passed to \<^verbatim>\<open>NewPoolWithOptions\<close>, the limits stored in
  the pool satisfy \<open>minAlive \<le> maxAlive\<close>, \<open>maxIdle \<le> maxAlive\<close> and \<open>maxIdle \<ge> minAlive\<close>.
\<close>

theorem C7_pool_limits:
  "minAlive (NewPoolWithOptions_limits options) \<le> maxAlive (NewPoolWithOptions_limits options) \<and>
   maxIdle (NewPoolWithOptions_limits options) \<le> maxAlive (NewPoolWithOptions_limits options) \<and>
   maxIdle (NewPoolWithOptions_limits options) \<ge> minAlive (NewPoolWithOptions_limits options)"
  unfolding NewPoolWithOptions_limits_def using clampLimits_ok by blast

section \<open>Interval algebra: proofs\<close>

lemma Less_iff_key: "Less a b \<longleftrightarrow> interval_key a < interval_key b"
  by (auto simp: Less_def interval_key_def word_sless_alt)

lemma Normalize_loop_append:
  "Normalize_loop (ys @ [l]) xs = ys @ Normalize_loop [l] xs"
proof (induction xs arbitrary: l ys)
  case Nil
  then show ?case by simp
next
  case (Cons x xs)
  show ?case
    using Cons.IH[of "ys @ [l]" x] Cons.IH[of "[l]" x] Cons.IH[of ys] Cons.IH[of "[]"]
    by (simp add: Let_def)
qed

lemma Normalize_loop_single:
  "Normalize_loop [l] (x # xs) =
     (if Stop l <s Start x then l # Normalize_loop [x] xs else Normalize_loop [merged l x] xs)"
  using Normalize_loop_append[of "[l]" x xs]
  by (simp add: Let_def merged_def)

declare Normalize_loop.simps(2) [simp del]

lemma points_merged:
  assumes "Start l \<le>s Start x" "\<not> Stop l <s Start x"
  shows "points (merged l x) = points l \<union> points x"
  using assms
  by (auto simp: points_def merged_def word_sless_alt word_sle_eq)

lemma covers_Normalize_loop:
  "sorted_wrt (\<lambda>a b. Start a \<le>s Start b) (l # xs) \<Longrightarrow>
   covers (Normalize_loop [l] xs) = points l \<union> covers xs"
proof (induction xs arbitrary: l)
  case Nil
  then show ?case by (simp add: covers_def)
next
  case (Cons x xs)
  show ?case
  proof (cases "Stop l <s Start x")
    case True
    have "sorted_wrt (\<lambda>a b. Start a \<le>s Start b) (x # xs)" using Cons.prems by simp
    from Cons.IH[OF this] True show ?thesis
      by (simp add: Normalize_loop_single covers_def)
  next
    case False
    have s: "sorted_wrt (\<lambda>a b. Start a \<le>s Start b) (merged l x # xs)"
      using Cons.prems by (simp add: merged_def)
    have lx: "Start l \<le>s Start x" using Cons.prems by simp
    from Cons.IH[OF s] False points_merged[OF lx False] show ?thesis
      by (auto simp add: Normalize_loop_single covers_def)
  qed
qed

lemma Start_Normalize_loop:
  "y \<in> set (Normalize_loop [l] xs) \<Longrightarrow> Start y \<in> Start ` set (l # xs)"
proof (induction xs arbitrary: l)
  case Nil
  then show ?case by simp
next
  case (Cons x xs)
  then show ?case
    by (fastforce simp: Normalize_loop_single merged_def split: if_splits)
qed

lemma chain_Normalize_loop:
  "sorted_wrt (\<lambda>a b. Start a \<le>s Start b) (l # xs) \<Longrightarrow>
   sorted_wrt (\<lambda>a b. Start a \<le>s Start b \<and> Stop a <s Start b) (Normalize_loop [l] xs)"
proof (induction xs arbitrary: l)
  case Nil
  then show ?case by simp
next
  case (Cons x xs)
  show ?case
  proof (cases "Stop l <s Start x")
    case True
    have sx: "sorted_wrt (\<lambda>a b. Start a \<le>s Start b) (x # xs)" using Cons.prems by simp
    have "Start l \<le>s Start y \<and> Stop l <s Start y" if "y \<in> set (Normalize_loop [x] xs)" for y
    proof -
      from Start_Normalize_loop[OF that] obtain z where z: "z \<in> set (x # xs)" "Start y = Start z"
        by auto
      have "Start x \<le>s Start z" using sx z(1) by (auto simp: word_sle_eq)
      moreover have "Start l \<le>s Start z" using Cons.prems z(1) by auto
      ultimately show ?thesis using True z(2) by (simp add: word_sle_eq word_sless_alt)
    qed
    with Cons.IH[OF sx] True show ?thesis
      by (simp add: Normalize_loop_single)
  next
    case False
    have s: "sorted_wrt (\<lambda>a b. Start a \<le>s Start b) (merged l x # xs)"
      using Cons.prems by (simp add: merged_def)
    from Cons.IH[OF s] False show ?thesis
      by (simp add: Normalize_loop_single)
  qed
qed

lemma dominates_Normalize_loop:
  "y \<in> set (Normalize_loop [l] xs) \<Longrightarrow>
   \<exists>z \<in> set (l # xs). Start y = Start z \<and> Stop z \<le>s Stop y"
proof (induction xs arbitrary: l)
  case Nil
  then show ?case by simp
next
  case (Cons x xs)
  show ?case
  proof (cases "Stop l <s Start x")
    case True
    with Cons.prems have "y = l \<or> y \<in> set (Normalize_loop [x] xs)"
      by (simp add: Normalize_loop_single)
    then show ?thesis using Cons.IH[of x] by auto
  next
    case False
    with Cons.prems have "y \<in> set (Normalize_loop [merged l x] xs)"
      by (simp add: Normalize_loop_single)
    from Cons.IH[OF this] obtain z where z: "z \<in> set (merged l x # xs)" "Start y = Start z" "Stop z \<le>s Stop y"
      by blast
    show ?thesis
    proof (cases "z = merged l x")
      case True
      then have "Start y = Start l" "Stop l \<le>s Stop y"
        using z by (auto simp: merged_def word_sle_eq word_sless_alt split: if_splits)
      then show ?thesis by auto
    next
      case False
      then show ?thesis using z by auto
    qed
  qed
qed

lemma key_le_iff:
  "interval_key a \<le> interval_key b \<longleftrightarrow>
     sint (Start a) < sint (Start b) \<or> (sint (Start a) = sint (Start b) \<and> sint (Stop a) \<le> sint (Stop b))"
  by (auto simp: interval_key_def)

lemma keysorted_Normalize_loop:
  "sorted (map interval_key (l # xs)) \<Longrightarrow> sorted (map interval_key (Normalize_loop [l] xs))"
proof (induction xs arbitrary: l)
  case Nil
  then show ?case by simp
next
  case (Cons x xs)
  have lx: "interval_key l \<le> interval_key x" using Cons.prems by simp
  have xy: "\<And>y. y \<in> set xs \<Longrightarrow> interval_key x \<le> interval_key y" using Cons.prems by auto
  show ?case
  proof (cases "Stop l <s Start x")
    case True
    have sx: "sorted (map interval_key (x # xs))" using Cons.prems by simp
    have "interval_key l \<le> interval_key y" if "y \<in> set (Normalize_loop [x] xs)" for y
    proof -
      from dominates_Normalize_loop[OF that] obtain z where
        z: "z \<in> set (x # xs)" "Start y = Start z" "Stop z \<le>s Stop y" by blast
      have "interval_key x \<le> interval_key z" using z(1) xy by auto
      with lx have "interval_key l \<le> interval_key z" by simp
      then show ?thesis using z(2,3) by (auto simp: key_le_iff word_sle_eq)
    qed
    with Cons.IH[OF sx] True show ?thesis
      by (simp add: Normalize_loop_single)
  next
    case False
    have "interval_key (merged l x) \<le> interval_key y" if "y \<in> set xs" for y
      using lx xy[OF that] False
      by (auto simp: key_le_iff merged_def word_sle_eq word_sless_alt)
    then have s: "sorted (map interval_key (merged l x # xs))"
      using Cons.prems by simp
    from Cons.IH[OF s] False show ?thesis
      by (simp add: Normalize_loop_single)
  qed
qed

lemma Normalize_loop_chain_id:
  "sorted_wrt (\<lambda>a b. Stop a <s Start b) (l # xs) \<Longrightarrow> Normalize_loop [l] xs = l # xs"
  by (induction xs arbitrary: l) (auto simp: Normalize_loop_single)

lemma Sort_props:
  "set (Sort s) = set s" "sorted (map interval_key (Sort s))" "length (Sort s) = length s"
  by (simp_all add: Sort_def)

lemma keysorted_Start_sorted:
  "sorted (map interval_key s) \<Longrightarrow> sorted_wrt (\<lambda>a b. Start a \<le>s Start b) s"
proof (induction s)
  case Nil
  then show ?case by simp
next
  case (Cons a s)
  then show ?case by (auto simp: key_le_iff word_sle_eq)
qed

lemma Normalize_nonempty:
  assumes "s \<noteq> []"
  obtains l xs where "Sort s = l # xs" "Normalize s = Normalize_loop [l] xs"
proof -
  from assms have "Sort s \<noteq> []" using Sort_props(3)[of s] by auto
  then obtain l xs where lx: "Sort s = l # xs" by (cases "Sort s") auto
  then have "Normalize s = Normalize_loop [l] xs" using assms by (simp add: Normalize_def Let_def)
  with lx show ?thesis using that by blast
qed

lemma Normalize_Nil: "Normalize [] = []"
  by (simp add: Normalize_def)

lemma covers_Normalize: "covers (Normalize s) = covers s"
proof (cases "s = []")
  case True
  then show ?thesis by (simp add: Normalize_Nil)
next
  case False
  then obtain l xs where lx: "Sort s = l # xs" "Normalize s = Normalize_loop [l] xs"
    by (rule Normalize_nonempty)
  have "sorted_wrt (\<lambda>a b. Start a \<le>s Start b) (l # xs)"
    using keysorted_Start_sorted[of "Sort s"] Sort_props(2)[of s] lx(1) by simp
  from covers_Normalize_loop[OF this] have "covers (Normalize s) = covers (Sort s)"
    using lx by (simp add: covers_def)
  then show ?thesis by (simp add: covers_def Sort_props(1))
qed

lemma chain_Normalize:
  "sorted_wrt (\<lambda>a b. Start a \<le>s Start b \<and> Stop a <s Start b) (Normalize s)"
proof (cases "s = []")
  case True
  then show ?thesis by (simp add: Normalize_Nil)
next
  case False
  then obtain l xs where lx: "Sort s = l # xs" "Normalize s = Normalize_loop [l] xs"
    by (rule Normalize_nonempty)
  have "sorted_wrt (\<lambda>a b. Start a \<le>s Start b) (l # xs)"
    using keysorted_Start_sorted[of "Sort s"] Sort_props(2)[of s] lx(1) by simp
  from chain_Normalize_loop[OF this] show ?thesis using lx(2) by simp
qed

lemma keysorted_Normalize: "sorted (map interval_key (Normalize s))"
proof (cases "s = []")
  case True
  then show ?thesis by (simp add: Normalize_Nil)
next
  case False
  then obtain l xs where lx: "Sort s = l # xs" "Normalize s = Normalize_loop [l] xs"
    by (rule Normalize_nonempty)
  have "sorted (map interval_key (l # xs))"
    using Sort_props(2)[of s] lx(1) by simp
  from keysorted_Normalize_loop[OF this] show ?thesis using lx(2) by simp
qed

lemma Normalize_fixpoint:
  assumes k: "sorted (map interval_key n)" and c: "sorted_wrt (\<lambda>a b. Stop a <s Start b) n"
  shows "Normalize n = n"
proof (cases n)
  case Nil
  then show ?thesis by (simp add: Normalize_Nil)
next
  case (Cons l xs)
  have "Sort n = n" using k by (simp add: Sort_def sort_key_id_if_sorted)
  then have "Normalize n = Normalize_loop [l] xs" using Cons by (simp add: Normalize_def Let_def)
  then show ?thesis using Normalize_loop_chain_id[of l xs] c Cons by simp
qed

lemma Normalize_idem: "Normalize (Normalize s) = Normalize s"
proof (rule Normalize_fixpoint)
  show "sorted (map interval_key (Normalize s))" by (rule keysorted_Normalize)
  have "sorted_wrt (\<lambda>a b. Start a \<le>s Start b \<and> Stop a <s Start b) (Normalize s)"
    by (rule chain_Normalize)
  then show "sorted_wrt (\<lambda>a b. Stop a <s Start b) (Normalize s)"
    by (rule sorted_wrt_mono_rel[rotated]) simp
qed

lemma res_ok_next:
  assumes S: "chainv (s_i # si)" and m: "Stop m = Stop s_i" and r: "res_ok m si B r"
  shows "sorted_wrt (\<lambda>a b. Stop a <s Start b) r"
    and "\<And>x. x \<in> set r \<Longrightarrow> Start x \<le>s Stop x \<and> Stop s_i <s Start x \<and> within (s_i # si) x \<and> apart B x"
proof -
  show "sorted_wrt (\<lambda>a b. Stop a <s Start b) r"
    using r by (cases si) (simp_all add: res_ok_def good_def)
  fix x assume x: "x \<in> set r"
  then obtain s' si' where si: "si = s' # si'" using r by (cases si) (auto simp: res_ok_def)
  have lt: "Stop s_i <s Start s'" "Start s' <s Stop s'" using S si by (auto simp: chainv_def)
  then have "Stop m \<noteq> Stop s'" using m by (auto simp: word_sless_alt)
  then have "load m s' = s'" by (simp add: load_def)
  then have g: "good s' si B r" using r si by (simp add: res_ok_def)
  then have "Start x \<le>s Stop x" "Start s' \<le>s Start x" "within si x" "apart B x"
    using x by (auto simp: good_def)
  then show "Start x \<le>s Stop x \<and> Stop s_i <s Start x \<and> within (s_i # si) x \<and> apart B x"
    using lt by (auto simp: within_def word_sle_eq word_sless_alt)
qed

lemma apart_Cons: "apart (b # B) x \<longleftrightarrow> (Stop x \<le>s Start b \<or> Stop b \<le>s Start x) \<and> apart B x"
  by (auto simp: apart_def)

lemma apart_before:
  assumes B: "chainv (b # B)" and x: "Stop x \<le>s Start b"
  shows "apart (b # B) x"
  using assms by (fastforce simp: apart_def chainv_def word_sle_eq word_sless_alt)

lemma chainv_tl: "chainv (a # s) \<Longrightarrow> chainv s"
  by (simp add: chainv_def)

lemma minv_next:
  assumes S: "chainv (s_i # si)" and m: "Stop m = Stop s_i"
  shows "minv m si"
proof (cases si)
  case Nil
  then show ?thesis by (simp add: minv_def)
next
  case (Cons s' si')
  then have "Stop s_i <s Start s'" "Start s' <s Stop s'" using S by (auto simp: chainv_def)
  then have "Stop m \<noteq> Stop s'" using m by (auto simp: word_sless_alt)
  then show ?thesis using Cons by (simp add: minv_def)
qed

lemmas s2i = word_sle_eq word_sless_alt

lemma good_ConsI:
  assumes "Start p \<le>s Stop p" "Start m \<le>s Start p" "within S p" "apart B p"
    and "sorted_wrt (\<lambda>a b. Stop a <s Start b) r"
    and "\<And>x. x \<in> set r \<Longrightarrow> Stop p <s Start x \<and> Start x \<le>s Stop x \<and> within S x \<and> apart B x"
  shows "good m S B (p # r)"
proof -
  have "sorted_wrt (\<lambda>a b. Stop a <s Start b) (p # r)" using assms(5,6) by simp
  moreover have "Start x \<le>s Stop x \<and> Start m \<le>s Start x \<and> within S x \<and> apart B x"
    if "x \<in> set (p # r)" for x
  proof -
    from that consider "x = p" | "x \<in> set r" by auto
    then show ?thesis
    proof cases
      case 1
      then show ?thesis using assms(1-4) by simp
    next
      case 2
      from assms(6)[OF 2] assms(1,2) show ?thesis by (simp add: s2i)
    qed
  qed
  ultimately show ?thesis unfolding good_def by blast
qed

lemma good_weaken:
  assumes "good m' S B' r"
    and "\<And>x. x \<in> set r \<Longrightarrow> Start m' \<le>s Start x \<Longrightarrow> apart B' x \<Longrightarrow> Start m \<le>s Start x \<and> apart B x"
  shows "good m S B r"
  using assms unfolding good_def by blast

lemma within_hd: "Start s_i \<le>s Start p \<Longrightarrow> Stop p \<le>s Stop s_i \<Longrightarrow> within (s_i # si) p"
  by (auto simp: within_def)

lemma loop_good:
  assumes "chainv S" "chainv B" "minv m0 S"
  shows "\<exists>r. MinusInterval_loop m0 S B n = Some (n @ r) \<and> res_ok m0 S B r"
  using assms
proof (induction m0 S B n rule: MinusInterval_loop.induct)
  case (1 m0 B n)
  then show ?case by (simp add: res_ok_def)
next
  case (2 m0 s_i si B n)
  define m where "m = load m0 s_i"
  have m_eq: "m = (if Stop m0 \<noteq> Stop s_i then s_i else m0)" by (simp add: m_def load_def)
  have cS: "chainv (s_i # si)" by fact
  have vs: "Start s_i <s Stop s_i" using cS by (simp add: chainv_def)
  have mf: "Start s_i \<le>s Start m" "Start m \<le>s Stop m" "Stop m = Stop s_i"
    using "2.prems"(3) vs by (auto simp: minv_def m_eq s2i)
  have cS': "chainv si" using cS by (rule chainv_tl)
  have mn: "minv m si" using cS mf(3) by (rule minv_next)
  have ld: "load m s_i = m" using mf(3) by (simp add: load_def)
  have mv: "minv m (s_i # si)" using mf by (simp add: minv_def)
  have res: "res_ok m0 (s_i # si) B' r \<longleftrightarrow> good m (s_i # si) B' r" for B' r
    by (simp add: res_ok_def m_def)
  have wm: "within (s_i # si) m" using mf by (intro within_hd) (simp_all add: s2i)
  show ?case
  proof (cases B)
    case Nil
    define sub where "sub = (case B of [] \<Rightarrow> \<lparr>Start = MaxInt64, Stop = MaxInt64\<rparr> | in_j # x \<Rightarrow> in_j)"
    have b1: "Stop m \<le>s Start sub" using Nil by (simp add: sub_def sle_MaxInt64)
    from "2.IH"(1)[OF m_eq sub_def b1 cS' "2.prems"(2) mn]
    obtain r' where r': "MinusInterval_loop m si B (n @ [m]) = Some ((n @ [m]) @ r')" "res_ok m si B r'"
      by blast
    have eq: "MinusInterval_loop m0 (s_i # si) B n = MinusInterval_loop m si B (n @ [m])"
      using b1 by (simp add: Let_def m_eq[symmetric] sub_def[symmetric])
    have "good m (s_i # si) B (m # r')"
    proof (rule good_ConsI)
      show "sorted_wrt (\<lambda>a b. Stop a <s Start b) r'" using res_ok_next(1)[OF cS mf(3) r'(2)] .
      show "apart B m" using Nil by (simp add: apart_def)
      fix x assume "x \<in> set r'"
      from res_ok_next(2)[OF cS mf(3) r'(2) this] mf(3)
      show "Stop m <s Start x \<and> Start x \<le>s Stop x \<and> within (s_i # si) x \<and> apart B x" by simp
    qed (use mf wm in \<open>simp_all add: s2i\<close>)
    then show ?thesis using eq r'(1) by (auto simp: res)
  next
    case (Cons b B')
    define sub where "sub = (case B of [] \<Rightarrow> \<lparr>Start = MaxInt64, Stop = MaxInt64\<rparr> | in_j # x \<Rightarrow> in_j)"
    have sb: "sub = b" using Cons by (simp add: sub_def)
    have cB: "chainv (b # B')" using "2.prems"(2) Cons by simp
    have cB': "chainv (tl B)" using cB Cons by (simp add: chainv_def)
    have vb: "Start b <s Stop b" using cB by (simp add: chainv_def)
    have tlB: "tl B = B'" using Cons by simp
    have unf: "MinusInterval_loop m0 (s_i # si) B n =
      (if Stop m \<le>s Start sub then MinusInterval_loop m si B (n @ [m])
       else if Stop sub \<le>s Start m then MinusInterval_loop m (s_i # si) (tl B) n
       else if Start m <s Start sub \<and> Stop m \<le>s Stop sub then
         MinusInterval_loop m si B (n @ [\<lparr>Start = Start m, Stop = Start sub\<rparr>])
       else if Start sub \<le>s Start m \<and> Stop sub <s Stop m then
         MinusInterval_loop \<lparr>Start = Stop sub, Stop = Stop m\<rparr> (s_i # si) (tl B) n
       else if Start sub \<le>s Start m \<and> Stop m \<le>s Stop sub then MinusInterval_loop m si B n
       else if Start m <s Start sub \<and> Stop sub <s Stop m then
         MinusInterval_loop \<lparr>Start = Stop sub, Stop = Stop m\<rparr> (s_i # si) (tl B)
           (n @ [\<lparr>Start = Start m, Stop = Start sub\<rparr>])
       else None)"
      by (simp add: Let_def m_eq[symmetric] sub_def[symmetric])
    consider
      (b1) "Stop m \<le>s Start sub"
      | (b2) "\<not> Stop m \<le>s Start sub" "Stop sub \<le>s Start m"
      | (b3) "\<not> Stop m \<le>s Start sub" "\<not> Stop sub \<le>s Start m"
             "Start m <s Start sub \<and> Stop m \<le>s Stop sub"
      | (b4) "\<not> Stop m \<le>s Start sub" "\<not> Stop sub \<le>s Start m"
             "\<not> (Start m <s Start sub \<and> Stop m \<le>s Stop sub)"
             "Start sub \<le>s Start m \<and> Stop sub <s Stop m"
      | (b5) "\<not> Stop m \<le>s Start sub" "\<not> Stop sub \<le>s Start m"
             "\<not> (Start m <s Start sub \<and> Stop m \<le>s Stop sub)"
             "\<not> (Start sub \<le>s Start m \<and> Stop sub <s Stop m)"
             "Start sub \<le>s Start m \<and> Stop m \<le>s Stop sub"
      | (b6) "\<not> Stop m \<le>s Start sub" "\<not> Stop sub \<le>s Start m"
             "\<not> (Start m <s Start sub \<and> Stop m \<le>s Stop sub)"
             "\<not> (Start sub \<le>s Start m \<and> Stop sub <s Stop m)"
             "\<not> (Start sub \<le>s Start m \<and> Stop m \<le>s Stop sub)"
             "Start m <s Start sub \<and> Stop sub <s Stop m"
      unfolding s2i by linarith
    then show ?thesis
    proof cases
      case b1
      from "2.IH"(1)[OF m_eq sub_def b1 cS' "2.prems"(2) mn]
      obtain r' where r': "MinusInterval_loop m si B (n @ [m]) = Some ((n @ [m]) @ r')" "res_ok m si B r'"
        by blast
      have "good m (s_i # si) B (m # r')"
      proof (rule good_ConsI)
        show "sorted_wrt (\<lambda>a b. Stop a <s Start b) r'" using res_ok_next(1)[OF cS mf(3) r'(2)] .
        show "apart B m" using apart_before[OF cB] b1 sb Cons by simp
        fix x assume "x \<in> set r'"
        from res_ok_next(2)[OF cS mf(3) r'(2) this] mf(3)
        show "Stop m <s Start x \<and> Start x \<le>s Stop x \<and> within (s_i # si) x \<and> apart B x" by simp
      qed (use mf wm in \<open>simp_all add: s2i\<close>)
      then show ?thesis using unf b1 r'(1) by (auto simp: res)
    next
      case b2
      from "2.IH"(2)[OF m_eq sub_def b2 cS cB' mv]
      obtain r' where r': "MinusInterval_loop m (s_i # si) (tl B) n = Some (n @ r')"
        "res_ok m (s_i # si) (tl B) r'"
        by blast
      have g: "good m (s_i # si) B' r'" using r'(2) ld tlB by (simp add: res_ok_def)
      have "good m (s_i # si) B r'"
      proof (rule good_weaken[OF g])
        fix x assume "Start m \<le>s Start x" "apart B' x"
        then show "Start m \<le>s Start x \<and> apart B x"
          using b2(2) sb Cons by (simp add: apart_Cons s2i)
      qed
      then show ?thesis using unf b2 r'(1) by (auto simp: res)
    next
      case b3
      define p where "p = \<lparr>Start = Start m, Stop = Start sub\<rparr>"
      from "2.IH"(3)[OF m_eq sub_def b3 cS' "2.prems"(2) mn]
      obtain r' where r': "MinusInterval_loop m si B (n @ [p]) = Some ((n @ [p]) @ r')" "res_ok m si B r'"
        unfolding p_def by blast
      have "good m (s_i # si) B (p # r')"
      proof (rule good_ConsI)
        show "sorted_wrt (\<lambda>a b. Stop a <s Start b) r'" using res_ok_next(1)[OF cS mf(3) r'(2)] .
        show "apart B p" using apart_before[OF cB, of p] sb Cons by (simp add: p_def s2i)
        show "within (s_i # si) p" using mf b3 by (intro within_hd) (simp_all add: p_def s2i)
        fix x assume "x \<in> set r'"
        from res_ok_next(2)[OF cS mf(3) r'(2) this] mf(3) b3
        show "Stop p <s Start x \<and> Start x \<le>s Stop x \<and> within (s_i # si) x \<and> apart B x"
          by (simp add: p_def s2i)
      qed (use b3 in \<open>simp_all add: p_def s2i\<close>)
      then show ?thesis using unf b3 r'(1) by (auto simp: res p_def)
    next
      case b4
      define m' where "m' = \<lparr>Start = Stop sub, Stop = Stop m\<rparr>"
      have mv': "minv m' (s_i # si)" using mf b4 by (simp add: minv_def m'_def s2i)
      have ld': "load m' s_i = m'" using mf(3) by (simp add: load_def m'_def)
      from "2.IH"(4)[OF m_eq sub_def b4 cS cB' mv'[unfolded m'_def]]
      obtain r' where r': "MinusInterval_loop m' (s_i # si) (tl B) n = Some (n @ r')"
        "res_ok m' (s_i # si) (tl B) r'"
        unfolding m'_def by blast
      have g: "good m' (s_i # si) B' r'" using r'(2) ld' tlB by (simp add: res_ok_def)
      have "good m (s_i # si) B r'"
      proof (rule good_weaken[OF g])
        fix x assume "Start m' \<le>s Start x" "apart B' x"
        then show "Start m \<le>s Start x \<and> apart B x"
          using b4 sb Cons by (simp add: apart_Cons m'_def s2i)
      qed
      then show ?thesis using unf b4 r'(1) by (auto simp: res m'_def)
    next
      case b5
      from "2.IH"(5)[OF m_eq sub_def b5 cS' "2.prems"(2) mn]
      obtain r' where r': "MinusInterval_loop m si B n = Some (n @ r')" "res_ok m si B r'"
        by blast
      have "sorted_wrt (\<lambda>a b. Stop a <s Start b) r'" using res_ok_next(1)[OF cS mf(3) r'(2)] .
      moreover have "Start x \<le>s Stop x \<and> Start m \<le>s Start x \<and> within (s_i # si) x \<and> apart B x"
        if "x \<in> set r'" for x
        using res_ok_next(2)[OF cS mf(3) r'(2) that] mf by (simp add: s2i)
      ultimately have "good m (s_i # si) B r'"
        unfolding good_def by blast
      then show ?thesis using unf b5 r'(1) by (auto simp: res)
    next
      case b6
      define m' where "m' = \<lparr>Start = Stop sub, Stop = Stop m\<rparr>"
      define p where "p = \<lparr>Start = Start m, Stop = Start sub\<rparr>"
      have mv': "minv m' (s_i # si)" using mf b6 by (simp add: minv_def m'_def s2i)
      have ld': "load m' s_i = m'" using mf(3) by (simp add: load_def m'_def)
      from "2.IH"(6)[OF m_eq sub_def b6 cS cB' mv'[unfolded m'_def]]
      obtain r' where r': "MinusInterval_loop m' (s_i # si) (tl B) (n @ [p]) = Some ((n @ [p]) @ r')"
        "res_ok m' (s_i # si) (tl B) r'"
        unfolding m'_def p_def by blast
      have g: "good m' (s_i # si) B' r'" using r'(2) ld' tlB by (simp add: res_ok_def)
      have "good m (s_i # si) B (p # r')"
      proof (rule good_ConsI)
        show "sorted_wrt (\<lambda>a b. Stop a <s Start b) r'" using g by (simp add: good_def)
        show "apart B p" using apart_before[OF cB, of p] sb Cons by (simp add: p_def s2i)
        show "within (s_i # si) p" using mf b6 vb sb by (intro within_hd) (simp_all add: p_def s2i)
        fix x assume "x \<in> set r'"
        then have "Start x \<le>s Stop x" "Start m' \<le>s Start x" "within (s_i # si) x" "apart B' x"
          using g by (auto simp: good_def)
        then show "Stop p <s Start x \<and> Start x \<le>s Stop x \<and> within (s_i # si) x \<and> apart B x"
          using vb sb Cons by (simp add: p_def m'_def apart_Cons s2i)
      qed (use b6 in \<open>simp_all add: p_def s2i\<close>)
      then show ?thesis using unf b6 r'(1) by (auto simp: res m'_def p_def)
    qed
  qed
qed

lemma sint_neq: "(a :: int64) \<noteq> b \<Longrightarrow> sint a \<noteq> sint b"
  by (simp add: word_eq_iff_signed [where ?'a = int])

lemma chainv_if_normalized:
  "list_all valid_interval s \<Longrightarrow> normalized s \<Longrightarrow> chainv s"
proof (induction s)
  case Nil
  then show ?case by (simp add: chainv_def)
next
  case (Cons a s)
  have va: "Start a <s Stop a" using Cons.prems(1) by (simp add: valid_interval_def)
  have IH: "chainv s"
    using Cons by (cases s) (auto simp: normalized_def)
  have "Stop a <s Start b" if "b \<in> set s" for b
  proof (cases s)
    case Nil
    then show ?thesis using that by simp
  next
    case (Cons c s')
    have "Stop a \<noteq> Start c" "Start a \<le>s Start c" "disjoint a c" "Start c <s Stop c"
      using Cons.prems Cons by (auto simp: normalized_def valid_interval_def)
    then have ac: "Stop a <s Start c"
      using va sint_neq[of "Stop a" "Start c"] by (auto simp: disjoint_def s2i)
    show ?thesis
    proof (cases "b = c")
      case True
      then show ?thesis using ac by simp
    next
      case False
      then have "b \<in> set s'" using that Cons by simp
      then have "Stop c <s Start b" using IH Cons by (auto simp: chainv_def)
      moreover have "Start c <s Stop c" using IH Cons by (auto simp: chainv_def)
      ultimately show ?thesis using ac by (simp add: s2i)
    qed
  qed
  then show ?case using IH va by (auto simp: chainv_def)
qed

lemma normalized_if_chain:
  assumes "sorted_wrt (\<lambda>a b. Start a \<le>s Start b \<and> Stop a <s Start b) s"
  shows "normalized s"
proof -
  have 1: "sorted_wrt (\<lambda>a b. Start a \<le>s Start b) s"
    using assms by (rule sorted_wrt_mono_rel[rotated]) simp
  have 2: "sorted_wrt disjoint s"
    using assms by (rule sorted_wrt_mono_rel[rotated]) (simp add: disjoint_def s2i)
  have "sorted_wrt (\<lambda>a b. Stop a \<noteq> Start b) s"
    using assms by (rule sorted_wrt_mono_rel[rotated]) (auto simp: s2i)
  then have 3: "successively (\<lambda>a b. Stop a \<noteq> Start b) s"
    by (induction s rule: induct_list012) auto
  from 1 2 3 show ?thesis by (simp add: normalized_def)
qed

lemma keysorted_if_chain:
  assumes "sorted_wrt (\<lambda>a b. Stop a <s Start b) r" "\<forall>x \<in> set r. Start x \<le>s Stop x"
  shows "sorted (map interval_key r)"
  using assms
proof (induction r)
  case Nil
  then show ?case by simp
next
  case (Cons a r)
  then show ?case by (auto simp: key_le_iff s2i)
qed

lemma Contain_loop_within:
  assumes "sorted_wrt (\<lambda>a b. Stop a <s Start b) S" "sorted_wrt (\<lambda>a b. Stop a <s Start b) r"
    and "\<forall>x \<in> set r. Start x \<le>s Stop x \<and> within S x"
  shows "Contain_loop S r"
  using assms
proof (induction S r rule: Contain_loop.induct)
  case (1 s)
  then show ?case by simp
next
  case (2 x sub)
  from "2.prems"(3) have "within [] x" by simp
  then show ?case by (simp add: within_def)
next
  case (3 y s x sub)
  have xv: "Start x \<le>s Stop x" and xw: "within (y # s) x" using "3.prems"(3) by auto
  show ?case
  proof (cases "Stop y <s Start x")
    case True
    have "Start z \<le>s Stop z \<and> within s z" if "z \<in> set (x # sub)" for z
    proof -
      have zz: "Start z \<le>s Stop z" "within (y # s) z" using "3.prems"(3) that by auto
      from that consider "z = x" | "z \<in> set sub" by auto
      then have "Start x \<le>s Start z"
      proof cases
        case 1
        then show ?thesis by simp
      next
        case 2
        then have "Stop x <s Start z" using "3.prems"(2) by simp
        then show ?thesis using xv by (simp add: s2i)
      qed
      then have "\<not> (Start y \<le>s Start z \<and> Stop z \<le>s Stop y)"
        using True zz(1) by (simp add: s2i)
      then show ?thesis using zz by (auto simp: within_def)
    qed
    then have "Contain_loop s (x # sub)"
      using "3.IH"(1)[OF True] "3.prems"(1,2) by simp
    then show ?thesis using True by simp
  next
    case False
    obtain y' where y': "y' \<in> set (y # s)" "Start y' \<le>s Start x" "Stop x \<le>s Stop y'"
      using xw by (auto simp: within_def)
    have "y' = y"
    proof (rule ccontr)
      assume "y' \<noteq> y"
      then have "y' \<in> set s" using y'(1) by simp
      then have "Stop y <s Start y'" using "3.prems"(1) by simp
      then show False using y'(2) False by (simp add: s2i)
    qed
    then have chk: "\<not> (Start x <s Start y \<or> Stop y <s Stop x)"
      using y' by (simp add: s2i)
    have "Contain_loop (y # s) sub"
      using "3.IH"(2)[OF False chk] "3.prems" by simp
    then show ?thesis using False chk by simp
  qed
qed

lemma points_apart:
  assumes "apart B x"
  shows "points x \<inter> covers B = {}"
  using assms by (fastforce simp: apart_def covers_def points_def s2i)

lemma Normalize_chainv: "chainv b \<Longrightarrow> Normalize b = b"
proof (rule Normalize_fixpoint)
  assume c: "chainv b"
  then show "sorted_wrt (\<lambda>a b. Stop a <s Start b) b" by (simp add: chainv_def)
  then show "sorted (map interval_key b)"
    using c by (intro keysorted_if_chain) (auto simp: chainv_def s2i)
qed

lemma MinusInterval_props:
  assumes a: "chainv a" and b: "chainv b"
  shows "\<exists>r. MinusInterval \<lparr>SID = u, Intervals = a\<rparr> b = Some \<lparr>SID = u, Intervals = r\<rparr> \<and>
     Contain a r \<and> covers r \<inter> covers b = {}"
proof -
  define z :: Interval where "z = \<lparr>Start = 0, Stop = 0\<rparr>"
  have mz: "minv z a"
    using a by (cases a) (auto simp: minv_def chainv_def z_def s2i)
  from loop_good[OF a b mz, of "[]"] obtain r where
    r: "MinusInterval_loop z a b [] = Some r" "res_ok z a b r" by auto
  have props: "sorted_wrt (\<lambda>a b. Stop a <s Start b) r \<and>
      (\<forall>x \<in> set r. Start x \<le>s Stop x \<and> within a x \<and> apart b x)"
    using r(2) by (cases a) (auto simp: res_ok_def good_def)
  have nr: "Normalize r = r"
    using props by (intro Normalize_fixpoint keysorted_if_chain) auto
  have "MinusInterval \<lparr>SID = u, Intervals = a\<rparr> b = Some \<lparr>SID = u, Intervals = r\<rparr>"
    using r(1) nr by (simp add: MinusInterval_def Normalize_chainv[OF b] z_def)
  moreover have "Contain a r"
    unfolding Contain_def using a props by (intro Contain_loop_within) (auto simp: chainv_def)
  moreover have "covers r \<inter> covers b = {}"
  proof -
    have "points x \<inter> covers b = {}" if "x \<in> set r" for x
      using props that by (intro points_apart) auto
    then show ?thesis by (auto simp: covers_def[of r])
  qed
  ultimately show ?thesis by blast
qed

lemma covers_Cons: "covers (x # xs) = points x \<union> covers xs"
  by (simp add: covers_def)

lemma covers_after:
  assumes "chainv (x # xs)" "p \<in> covers xs"
  shows "Stop x <s p"
proof -
  from assms(2) obtain y where y: "y \<in> set xs" "Start y \<le>s p" by (auto simp: covers_def points_def)
  then have "Stop x <s Start y" using assms(1) by (auto simp: chainv_def)
  then show ?thesis using y(2) by (simp add: s2i)
qed

lemma remaining_next:
  assumes S: "chainv (s_i # si)" and m: "Stop m = Stop s_i"
  shows "remaining m si = covers si"
proof (cases si)
  case Nil
  then show ?thesis by (simp add: remaining_def covers_def)
next
  case (Cons s' si')
  then have "Stop s_i <s Start s'" "Start s' <s Stop s'" using S by (auto simp: chainv_def)
  then have "Stop m \<noteq> Stop s'" using m by (auto simp: word_sless_alt)
  then show ?thesis using Cons by (simp add: remaining_def load_def covers_Cons)
qed

lemma loop_covers:
  assumes "chainv S" "chainv B" "minv m0 S"
  shows "\<exists>r. MinusInterval_loop m0 S B n = Some (n @ r) \<and> covers r = remaining m0 S - covers B"
  using assms
proof (induction m0 S B n rule: MinusInterval_loop.induct)
  case (1 m0 B n)
  then show ?case by (simp add: remaining_def covers_def)
next
  case (2 m0 s_i si B n)
  define m where "m = load m0 s_i"
  have m_eq: "m = (if Stop m0 \<noteq> Stop s_i then s_i else m0)" by (simp add: m_def load_def)
  have cS: "chainv (s_i # si)" by fact
  have vs: "Start s_i <s Stop s_i" using cS by (simp add: chainv_def)
  have mf: "Start s_i \<le>s Start m" "Start m \<le>s Stop m" "Stop m = Stop s_i"
    using "2.prems"(3) vs by (auto simp: minv_def m_eq s2i)
  have cS': "chainv si" using cS by (rule chainv_tl)
  have mn: "minv m si" using cS mf(3) by (rule minv_next)
  have ld: "load m s_i = m" using mf(3) by (simp add: load_def)
  have mv: "minv m (s_i # si)" using mf by (simp add: minv_def)
  have rem: "remaining m0 (s_i # si) = points m \<union> covers si"
    by (simp add: remaining_def m_def)
  have rem_m: "remaining m (s_i # si) = points m \<union> covers si"
    by (simp add: remaining_def ld)
  have rem_si: "remaining m si = covers si" using cS mf(3) by (rule remaining_next)
  have after_si: "Stop m <s p" if "p \<in> covers si" for p
    using covers_after[OF cS that] mf(3) by simp
  show ?case
  proof (cases B)
    case Nil
    define sub where "sub = (case B of [] \<Rightarrow> \<lparr>Start = MaxInt64, Stop = MaxInt64\<rparr> | in_j # x \<Rightarrow> in_j)"
    have b1: "Stop m \<le>s Start sub" using Nil by (simp add: sub_def sle_MaxInt64)
    from "2.IH"(1)[OF m_eq sub_def b1 cS' "2.prems"(2) mn]
    obtain r' where r': "MinusInterval_loop m si B (n @ [m]) = Some ((n @ [m]) @ r')"
      "covers r' = remaining m si - covers B"
      by blast
    have eq: "MinusInterval_loop m0 (s_i # si) B n = MinusInterval_loop m si B (n @ [m])"
      using b1 by (simp add: Let_def m_eq[symmetric] sub_def[symmetric])
    have "covers (m # r') = remaining m0 (s_i # si) - covers B"
      using r'(2) Nil by (simp add: rem rem_si covers_Cons) (simp add: covers_def)
    then show ?thesis using eq r'(1) by auto
  next
    case (Cons b B')
    define sub where "sub = (case B of [] \<Rightarrow> \<lparr>Start = MaxInt64, Stop = MaxInt64\<rparr> | in_j # x \<Rightarrow> in_j)"
    have sb: "sub = b" using Cons by (simp add: sub_def)
    have cB: "chainv (b # B')" using "2.prems"(2) Cons by simp
    have cB': "chainv (tl B)" using cB Cons by (simp add: chainv_def)
    have vb: "Start b <s Stop b" using cB by (simp add: chainv_def)
    have tlB: "tl B = B'" using Cons by simp
    have covB: "covers B = points b \<union> covers B'" using Cons by (simp add: covers_Cons)
    have after_B: "Stop b <s p" if "p \<in> covers B'" for p
      using covers_after[OF cB that] .
    have unf: "MinusInterval_loop m0 (s_i # si) B n =
      (if Stop m \<le>s Start sub then MinusInterval_loop m si B (n @ [m])
       else if Stop sub \<le>s Start m then MinusInterval_loop m (s_i # si) (tl B) n
       else if Start m <s Start sub \<and> Stop m \<le>s Stop sub then
         MinusInterval_loop m si B (n @ [\<lparr>Start = Start m, Stop = Start sub\<rparr>])
       else if Start sub \<le>s Start m \<and> Stop sub <s Stop m then
         MinusInterval_loop \<lparr>Start = Stop sub, Stop = Stop m\<rparr> (s_i # si) (tl B) n
       else if Start sub \<le>s Start m \<and> Stop m \<le>s Stop sub then MinusInterval_loop m si B n
       else if Start m <s Start sub \<and> Stop sub <s Stop m then
         MinusInterval_loop \<lparr>Start = Stop sub, Stop = Stop m\<rparr> (s_i # si) (tl B)
           (n @ [\<lparr>Start = Start m, Stop = Start sub\<rparr>])
       else None)"
      by (simp add: Let_def m_eq[symmetric] sub_def[symmetric])
    consider
      (b1) "Stop m \<le>s Start sub"
      | (b2) "\<not> Stop m \<le>s Start sub" "Stop sub \<le>s Start m"
      | (b3) "\<not> Stop m \<le>s Start sub" "\<not> Stop sub \<le>s Start m"
             "Start m <s Start sub \<and> Stop m \<le>s Stop sub"
      | (b4) "\<not> Stop m \<le>s Start sub" "\<not> Stop sub \<le>s Start m"
             "\<not> (Start m <s Start sub \<and> Stop m \<le>s Stop sub)"
             "Start sub \<le>s Start m \<and> Stop sub <s Stop m"
      | (b5) "\<not> Stop m \<le>s Start sub" "\<not> Stop sub \<le>s Start m"
             "\<not> (Start m <s Start sub \<and> Stop m \<le>s Stop sub)"
             "\<not> (Start sub \<le>s Start m \<and> Stop sub <s Stop m)"
             "Start sub \<le>s Start m \<and> Stop m \<le>s Stop sub"
      | (b6) "\<not> Stop m \<le>s Start sub" "\<not> Stop sub \<le>s Start m"
             "\<not> (Start m <s Start sub \<and> Stop m \<le>s Stop sub)"
             "\<not> (Start sub \<le>s Start m \<and> Stop sub <s Stop m)"
             "\<not> (Start sub \<le>s Start m \<and> Stop m \<le>s Stop sub)"
             "Start m <s Start sub \<and> Stop sub <s Stop m"
      unfolding s2i by linarith
    then show ?thesis
    proof cases
      case b1
      from "2.IH"(1)[OF m_eq sub_def b1 cS' "2.prems"(2) mn]
      obtain r' where r': "MinusInterval_loop m si B (n @ [m]) = Some ((n @ [m]) @ r')"
        "covers r' = remaining m si - covers B"
        by blast
      have "p \<notin> covers B" if "p \<in> points m" for p
      proof -
        have "p \<notin> points b" using that b1 sb by (simp add: points_def s2i)
        moreover have "p \<notin> covers B'" using after_B[of p] that b1 sb vb by (auto simp: points_def s2i)
        ultimately show ?thesis by (simp add: covB)
      qed
      then have "covers (m # r') = remaining m0 (s_i # si) - covers B"
        using r'(2) by (auto simp: rem rem_si covers_Cons)
      then show ?thesis using unf b1 r'(1) by auto
    next
      case b2
      from "2.IH"(2)[OF m_eq sub_def b2 cS cB' mv]
      obtain r' where r': "MinusInterval_loop m (s_i # si) (tl B) n = Some (n @ r')"
        "covers r' = remaining m (s_i # si) - covers (tl B)"
        by blast
      have "p \<notin> points m \<union> covers si" if "p \<in> points b" for p
      proof -
        have "p \<notin> points m" using that b2 sb by (simp add: points_def s2i)
        moreover have "p \<notin> covers si" using after_si[of p] that b2 sb mf(2) by (auto simp: points_def s2i)
        ultimately show ?thesis by simp
      qed
      then have "covers r' = remaining m0 (s_i # si) - covers B"
        using r'(2) by (auto simp: rem rem_m covB tlB)
      then show ?thesis using unf b2 r'(1) by auto
    next
      case b3
      define p where "p = \<lparr>Start = Start m, Stop = Start sub\<rparr>"
      from "2.IH"(3)[OF m_eq sub_def b3 cS' "2.prems"(2) mn]
      obtain r' where r': "MinusInterval_loop m si B (n @ [p]) = Some ((n @ [p]) @ r')"
        "covers r' = remaining m si - covers B"
        unfolding p_def by blast
      have "q \<in> points p \<longleftrightarrow> q \<in> points m \<and> q \<notin> covers B" for q
      proof (cases "q \<in> covers B'")
        case True
        from after_B[OF this] show ?thesis using True b3 sb vb by (auto simp: covB points_def p_def s2i)
      next
        case False
        then show ?thesis using b3 sb vb by (auto simp: covB points_def p_def s2i)
      qed
      then have "covers (p # r') = remaining m0 (s_i # si) - covers B"
        using r'(2) by (auto simp: rem rem_si covers_Cons)
      then show ?thesis using unf b3 r'(1) by (auto simp: p_def)
    next
      case b4
      define m' where "m' = \<lparr>Start = Stop sub, Stop = Stop m\<rparr>"
      have mv': "minv m' (s_i # si)" using mf b4 by (simp add: minv_def m'_def s2i)
      have ld': "load m' s_i = m'" using mf(3) by (simp add: load_def m'_def)
      from "2.IH"(4)[OF m_eq sub_def b4 cS cB' mv'[unfolded m'_def]]
      obtain r' where r': "MinusInterval_loop m' (s_i # si) (tl B) n = Some (n @ r')"
        "covers r' = remaining m' (s_i # si) - covers (tl B)"
        unfolding m'_def by blast
      have rem': "remaining m' (s_i # si) = points m' \<union> covers si"
        by (simp add: remaining_def ld')
      have 1: "q \<in> points m' \<longleftrightarrow> q \<in> points m \<and> q \<notin> points b" for q
        using b4 sb by (auto simp: points_def m'_def s2i)
      have 2: "q \<notin> points b" if "q \<in> covers si" for q
        using after_si[OF that] b4 sb by (auto simp: points_def s2i)
      have "covers r' = remaining m0 (s_i # si) - covers B"
        using r'(2) 1 2 by (auto simp: rem rem' covB tlB)
      then show ?thesis using unf b4 r'(1) by (auto simp: m'_def)
    next
      case b5
      from "2.IH"(5)[OF m_eq sub_def b5 cS' "2.prems"(2) mn]
      obtain r' where r': "MinusInterval_loop m si B n = Some (n @ r')"
        "covers r' = remaining m si - covers B"
        by blast
      have "q \<in> points b" if "q \<in> points m" for q
        using that b5 sb by (auto simp: points_def s2i)
      then have "covers r' = remaining m0 (s_i # si) - covers B"
        using r'(2) by (auto simp: rem rem_si covB)
      then show ?thesis using unf b5 r'(1) by auto
    next
      case b6
      define m' where "m' = \<lparr>Start = Stop sub, Stop = Stop m\<rparr>"
      define p where "p = \<lparr>Start = Start m, Stop = Start sub\<rparr>"
      have mv': "minv m' (s_i # si)" using mf b6 by (simp add: minv_def m'_def s2i)
      have ld': "load m' s_i = m'" using mf(3) by (simp add: load_def m'_def)
      from "2.IH"(6)[OF m_eq sub_def b6 cS cB' mv'[unfolded m'_def]]
      obtain r' where r': "MinusInterval_loop m' (s_i # si) (tl B) (n @ [p]) = Some ((n @ [p]) @ r')"
        "covers r' = remaining m' (s_i # si) - covers (tl B)"
        unfolding m'_def p_def by blast
      have rem': "remaining m' (s_i # si) = points m' \<union> covers si"
        by (simp add: remaining_def ld')
      have 1: "q \<in> points p \<or> q \<in> points m' \<longleftrightarrow> q \<in> points m \<and> q \<notin> points b" for q
        using b6 sb vb by (auto simp: points_def m'_def p_def s2i)
      have 2: "q \<notin> points b" if "q \<in> covers si" for q
        using after_si[OF that] b6 sb by (auto simp: points_def s2i)
      have 3: "q \<notin> covers B'" if "q \<in> points p" for q
        using after_B[of q] that vb sb by (auto simp: points_def p_def s2i)
      have "covers (p # r') = remaining m0 (s_i # si) - covers B"
        using r'(2) 1 2 3 by (auto simp: rem rem' covB tlB covers_Cons)
      then show ?thesis using unf b6 r'(1) by (auto simp: m'_def p_def)
    qed
  qed
qed

lemma remaining_zero:
  "remaining \<lparr>Start = 0, Stop = 0\<rparr> a =
     (case a of [] \<Rightarrow> {} | x # xs \<Rightarrow> if Stop x = 0 then covers xs else covers a)"
  by (cases a) (auto simp: remaining_def load_def points_def covers_Cons s2i)

lemma MinusInterval_covers:
  assumes a: "chainv a" and b: "chainv b"
  shows "\<exists>r. MinusInterval \<lparr>SID = u, Intervals = a\<rparr> b = Some \<lparr>SID = u, Intervals = r\<rparr> \<and>
     covers r = (case a of [] \<Rightarrow> {} | x # xs \<Rightarrow> if Stop x = 0 then covers xs else covers a) - covers b"
proof -
  define z :: Interval where "z = \<lparr>Start = 0, Stop = 0\<rparr>"
  have mz: "minv z a"
    using a by (cases a) (auto simp: minv_def chainv_def z_def s2i)
  from loop_covers[OF a b mz, of "[]"] obtain r where
    r: "MinusInterval_loop z a b [] = Some r" "covers r = remaining z a - covers b" by auto
  have "MinusInterval \<lparr>SID = u, Intervals = a\<rparr> b = Some \<lparr>SID = u, Intervals = Normalize r\<rparr>"
    using r(1) by (simp add: MinusInterval_def Normalize_chainv[OF b] z_def)
  moreover have "covers (Normalize r) =
      (case a of [] \<Rightarrow> {} | x # xs \<Rightarrow> if Stop x = 0 then covers xs else covers a) - covers b"
    using r(2) by (simp add: covers_Normalize remaining_zero z_def)
  ultimately show ?thesis by blast
qed

lemma MinusInterval_set_difference:
  assumes "list_all valid_interval a" "normalized a" "list_all valid_interval b" "normalized b"
    and "a = [] \<or> Stop (hd a) \<noteq> 0"
  shows "\<exists>r. MinusInterval \<lparr>SID = u, Intervals = a\<rparr> b = Some \<lparr>SID = u, Intervals = r\<rparr> \<and>
           covers r = covers a - covers b"
proof -
  have "chainv a" "chainv b" using assms(1-4) by (simp_all add: chainv_if_normalized)
  from MinusInterval_covers[OF this, of u] assms(5) show ?thesis
    by (cases a) (auto simp: covers_def)
qed

lemma MinusInterval_first_lost:
  assumes "list_all valid_interval (x # xs)" "normalized (x # xs)"
    and "list_all valid_interval b" "normalized b" and "Stop x = 0"
  shows "\<exists>r. MinusInterval \<lparr>SID = u, Intervals = x # xs\<rparr> b = Some \<lparr>SID = u, Intervals = r\<rparr> \<and>
           covers r = covers xs - covers b"
proof -
  have "chainv (x # xs)" "chainv b" using assms(1-4) by (simp_all add: chainv_if_normalized)
  from MinusInterval_covers[OF this, of u] assms(5) show ?thesis by simp
qed

lemma MinusInterval_loop_total: "\<exists>r. MinusInterval_loop m S B n = Some r"
proof (induction m S B n rule: MinusInterval_loop.induct)
  case (1 m B n)
  then show ?case by simp
next
  case (2 m0 s_i si B n)
  define m where "m = (if Stop m0 \<noteq> Stop s_i then s_i else m0)"
  define sub where "sub = (case B of [] \<Rightarrow> \<lparr>Start = MaxInt64, Stop = MaxInt64\<rparr> | in_j # x \<Rightarrow> in_j)"
  note IH = "2.IH"[OF m_def sub_def]
  have lin: "Stop m \<le>s Start sub \<or> Stop sub \<le>s Start m
      \<or> (Start m <s Start sub \<and> Stop m \<le>s Stop sub)
      \<or> (Start sub \<le>s Start m \<and> Stop sub <s Stop m)
      \<or> (Start sub \<le>s Start m \<and> Stop m \<le>s Stop sub)
      \<or> (Start m <s Start sub \<and> Stop sub <s Stop m)"
    unfolding s2i by linarith
  have unf: "MinusInterval_loop m0 (s_i # si) B n =
      (if Stop m \<le>s Start sub then MinusInterval_loop m si B (n @ [m])
       else if Stop sub \<le>s Start m then MinusInterval_loop m (s_i # si) (tl B) n
       else if Start m <s Start sub \<and> Stop m \<le>s Stop sub then
         MinusInterval_loop m si B (n @ [\<lparr>Start = Start m, Stop = Start sub\<rparr>])
       else if Start sub \<le>s Start m \<and> Stop sub <s Stop m then
         MinusInterval_loop \<lparr>Start = Stop sub, Stop = Stop m\<rparr> (s_i # si) (tl B) n
       else if Start sub \<le>s Start m \<and> Stop m \<le>s Stop sub then MinusInterval_loop m si B n
       else if Start m <s Start sub \<and> Stop sub <s Stop m then
         MinusInterval_loop \<lparr>Start = Stop sub, Stop = Stop m\<rparr> (s_i # si) (tl B)
           (n @ [\<lparr>Start = Start m, Stop = Start sub\<rparr>])
       else None)"
    by (simp add: Let_def m_def[symmetric] sub_def[symmetric])
  show ?case
    using IH lin by (subst unf) (auto simp del: MinusInterval_loop.simps)
qed

lemma MinusInterval_total: "\<exists>u'. MinusInterval u in' = Some u'"
  using MinusInterval_loop_total[of "\<lparr>Start = 0, Stop = 0\<rparr>" "Intervals u" "Normalize in'" "[]"]
  by (auto simp: MinusInterval_def)

section \<open>Interval algebra: the claims\<close>

text \<open>
  Claim C2. For every slice \<open>s\<close>, \<^verbatim>\<open>Normalize(s)\<close> is normalized (sorted by \<open>Start\<close>,
  pairwise disjoint, no interval ending where the next starts), covers exactly the points
  \<open>s\<close> covers, and normalizing it again returns it unchanged.
\<close>

theorem C2_Normalize:
  "normalized (Normalize s) \<and>
   (\<forall>p. p \<in> covers (Normalize s) \<longleftrightarrow> p \<in> covers s) \<and>
   Normalize (Normalize s) = Normalize s"
  using normalized_if_chain[OF chain_Normalize] covers_Normalize Normalize_idem by simp

text \<open>
  Claim C1 says that for normalized \<open>a\<close> and \<open>b\<close> the result of \<^verbatim>\<open>MinusInterval\<close> is the
  set-difference. The loop starts with the zero \<^verbatim>\<open>Interval\<close> as minuend and loads
  \<^verbatim>\<open>s.Intervals[i]\<close> only when its \<open>Stop\<close> differs from the minuend's (the source's comment
  on that test: \<^verbatim>\<open>`i` changed?\<close>). A first interval that stops at 0 is therefore never
  loaded. For the valid, normalized minuend \<open>[-5, 0)\<close> and the empty subtrahend the call
  stores the one interval \<open>[0, 0)\<close>, which covers nothing, while \<open>-5\<close> is in the
  set-difference. Lemma \<open>MinusInterval_covers\<close> above says what the result covers for all
  normalized \<open>a\<close> and \<open>b\<close> of valid intervals: the set-difference when the first interval
  of \<open>a\<close> does not stop at 0 (\<open>MinusInterval_set_difference\<close>), and the set-difference without
  the first interval when it does (\<open>MinusInterval_first_lost\<close>). The two properties the
  claim goes on to name, \<^verbatim>\<open>Contain\<close> and no point shared with \<open>b\<close>, hold in both cases
  (\<open>MinusInterval_props\<close>).
\<close>

theorem C1_first_stop_zero:
  "list_all valid_interval [\<lparr>Start = -5, Stop = 0\<rparr>] \<and> normalized [\<lparr>Start = -5, Stop = 0\<rparr>] \<and>
   normalized [] \<and>
   MinusInterval \<lparr>SID = replicate 16 0, Intervals = [\<lparr>Start = -5, Stop = 0\<rparr>]\<rparr> [] =
     Some \<lparr>SID = replicate 16 0, Intervals = [\<lparr>Start = 0, Stop = 0\<rparr>]\<rparr> \<and>
   covers [\<lparr>Start = 0, Stop = 0\<rparr>] = {} \<and>
   -5 \<in> covers [\<lparr>Start = -5, Stop = 0\<rparr>] - covers []"
  by (simp add: valid_interval_def normalized_def MinusInterval_def Normalize_def Sort_def
      MaxInt64_def covers_def points_def s2i)

text \<open>
  The same with more intervals: the first interval is replaced by \<open>[0, 0)\<close>, the others
  are subtracted from as they should be.
\<close>

lemma zero_stop_lost_example:
  "MinusInterval \<lparr>SID = replicate 16 0, Intervals = [\<lparr>Start = -5, Stop = 0\<rparr>, \<lparr>Start = 3, Stop = 9\<rparr>]\<rparr>
     [\<lparr>Start = 4, Stop = 6\<rparr>] =
     Some \<lparr>SID = replicate 16 0,
       Intervals = [\<lparr>Start = 0, Stop = 0\<rparr>, \<lparr>Start = 3, Stop = 4\<rparr>, \<lparr>Start = 6, Stop = 9\<rparr>]\<rparr>"
proof -
  have n: "Normalize [\<lparr>Start = 4, Stop = 6\<rparr>] = [\<lparr>Start = 4, Stop = 6\<rparr>]"
    by (simp add: Normalize_def Sort_def)
  have r: "Normalize [\<lparr>Start = 0, Stop = 0\<rparr>, \<lparr>Start = 3, Stop = 4\<rparr>, \<lparr>Start = 6, Stop = 9\<rparr>] =
      [\<lparr>Start = 0, Stop = 0\<rparr>, \<lparr>Start = 3, Stop = 4\<rparr>, \<lparr>Start = 6, Stop = 9\<rparr> :: Interval]"
    by (rule Normalize_fixpoint) (simp_all add: interval_key_def s2i)
  show ?thesis
    by (simp add: MinusInterval_def n r MaxInt64_def s2i)
qed

text \<open>
  Claim C10. \<^verbatim>\<open>AddSet(nil)\<close> and \<^verbatim>\<open>MinusSet(nil)\<close> return with the set unchanged. When the
  set has an entry for the UUID, \<^verbatim>\<open>MinusSet\<close> subtracts, and afterwards the entry is gone
  exactly when the subtraction left no interval; otherwise the entry holds the result;
  every other entry is as before. With no entry for the UUID nothing changes.
\<close>

theorem C10_nil_and_delete:
  "AddSet s None = s \<and> MinusSet s None = Some s \<and>
   (\<forall>st u. Sets s (UUID_String (SID st)) = Some u \<longrightarrow>
      (\<exists>u' s'. MinusInterval u (Intervals st) = Some u' \<and> MinusSet s (Some st) = Some s' \<and>
         (Sets s' (UUID_String (SID st)) = None \<longleftrightarrow> Intervals u' = []) \<and>
         (Intervals u' \<noteq> [] \<longrightarrow> Sets s' (UUID_String (SID st)) = Some u') \<and>
         (\<forall>k. k \<noteq> UUID_String (SID st) \<longrightarrow> Sets s' k = Sets s k))) \<and>
   (\<forall>st. Sets s (UUID_String (SID st)) = None \<longrightarrow> MinusSet s (Some st) = Some s)"
proof -
  have "\<exists>u' s'. MinusInterval u (Intervals st) = Some u' \<and> MinusSet s (Some st) = Some s' \<and>
         (Sets s' (UUID_String (SID st)) = None \<longleftrightarrow> Intervals u' = []) \<and>
         (Intervals u' \<noteq> [] \<longrightarrow> Sets s' (UUID_String (SID st)) = Some u') \<and>
         (\<forall>k. k \<noteq> UUID_String (SID st) \<longrightarrow> Sets s' k = Sets s k)"
    if "Sets s (UUID_String (SID st)) = Some u" for st u
  proof -
    obtain u' where u': "MinusInterval u (Intervals st) = Some u'"
      using MinusInterval_total by blast
    show ?thesis
      using that u' by (cases "Intervals u' = []") (simp_all add: MinusSet_def Let_def)
  qed
  then show ?thesis
    by (auto simp: AddSet_def MinusSet_def)
qed

theorem C10_nil_and_delete_witness:
  "\<exists>u' s'. MinusInterval \<lparr>SID = [], Intervals = [\<lparr>Start = 1, Stop = 6\<rparr>]\<rparr> [\<lparr>Start = 1, Stop = 6\<rparr>] = Some u' \<and>
      MinusSet \<lparr>Sets = [UUID_String [] \<mapsto> \<lparr>SID = [], Intervals = [\<lparr>Start = 1, Stop = 6\<rparr>]\<rparr>]\<rparr>
        (Some \<lparr>SID = [], Intervals = [\<lparr>Start = 1, Stop = 6\<rparr>]\<rparr>) = Some s' \<and>
      (Sets s' (UUID_String []) = None) = (Intervals u' = [])"
proof -
  define st :: UUIDSet where "st = \<lparr>SID = [], Intervals = [\<lparr>Start = 1, Stop = 6\<rparr>]\<rparr>"
  define s :: MysqlGTIDSet where "s = \<lparr>Sets = [UUID_String [] \<mapsto> st]\<rparr>"
  have h: "Sets s (UUID_String (SID st)) = Some st" by (simp add: s_def st_def)
  have "\<forall>st u. Sets s (UUID_String (SID st)) = Some u \<longrightarrow>
      (\<exists>u' s'. MinusInterval u (Intervals st) = Some u' \<and> MinusSet s (Some st) = Some s' \<and>
         (Sets s' (UUID_String (SID st)) = None \<longleftrightarrow> Intervals u' = []) \<and>
         (Intervals u' \<noteq> [] \<longrightarrow> Sets s' (UUID_String (SID st)) = Some u') \<and>
         (\<forall>k. k \<noteq> UUID_String (SID st) \<longrightarrow> Sets s' k = Sets s k))"
    using C10_nil_and_delete[of s] by blast
  from this[rule_format, OF h] show ?thesis
    unfolding s_def st_def by auto
qed

section \<open>Text form of an interval: proofs\<close>

declare digits.simps [simp del]

lemmas parse_eval = Interval_String_def FormatInt_def digits.simps digit_char_def parseInterval_def
  ParseInt_def ParseUint_def digit_val_def cutoff64_def Let_def

lemma parseInterval_negative: "parseInterval (Interval_String \<lparr>Start = -5, Stop = -4\<rparr>) = Inl (NumErr ErrSyntax)"
  by (simp add: parse_eval)

lemma parseInterval_example: "parseInterval ''1-5'' = Inr \<lparr>Start = 1, Stop = 6\<rparr>"
  by (simp add: parse_eval s2i)

lemma Interval_String_example: "Interval_String \<lparr>Start = 1, Stop = 6\<rparr> = ''1-5''"
  by (simp add: parse_eval)

lemma Interval_String_single: "Interval_String \<lparr>Start = 3, Stop = 4\<rparr> = ''3''"
  by (simp add: parse_eval)

lemma digit_val_digit_char: "d < 10 \<Longrightarrow> digit_val (digit_char d) = Some d"
proof -
  assume "d < 10"
  then consider "d = 0" | "d = 1" | "d = 2" | "d = 3" | "d = 4" | "d = 5" | "d = 6" | "d = 7" | "d = 8" | "d = 9"
    by (auto simp: numeral_eq_Suc less_Suc_eq)
  then show ?thesis
    by cases (simp_all add: digit_val_def digit_char_def)
qed

lemma digit_char_not_sep: "d < 10 \<Longrightarrow> digit_char d \<noteq> CHR ''-'' \<and> digit_char d \<noteq> CHR ''+''"
proof -
  assume "d < 10"
  then consider "d = 0" | "d = 1" | "d = 2" | "d = 3" | "d = 4" | "d = 5" | "d = 6" | "d = 7" | "d = 8" | "d = 9"
    by (auto simp: numeral_eq_Suc less_Suc_eq)
  then show ?thesis
    by cases (simp_all add: digit_char_def)
qed

lemma ParseUint_loop_snoc:
  assumes "d < 10"
  shows "ParseUint_loop (xs @ [digit_char d]) acc =
     (case ParseUint_loop xs acc of
        Inl e \<Rightarrow> Inl e
      | Inr m \<Rightarrow> if m * 10 + d \<ge> 2 ^ 64 then Inl ErrRange else Inr (m * 10 + d))"
proof (induction xs arbitrary: acc)
  case Nil
  have "acc \<ge> cutoff64 \<Longrightarrow> acc * 10 + d \<ge> 2 ^ 64"
    by (simp add: cutoff64_def)
  then show ?case
    using assms by (auto simp: digit_val_digit_char Let_def)
next
  case (Cons c cs)
  then show ?case
    by (auto simp: Let_def split: option.splits)
qed

lemma ParseUint_loop_digits: "n < 2 ^ 64 \<Longrightarrow> ParseUint_loop (digits n) 0 = Inr n"
proof (induction n rule: digits.induct)
  case (1 n)
  show ?case
  proof (cases "n < 10")
    case True
    then show ?thesis
      using ParseUint_loop_snoc[of n "[]" 0] by (simp add: digits.simps[of n])
  next
    case False
    have lt: "n div 10 < 2 ^ 64" using "1.prems" by simp
    have "ParseUint_loop (digits (n div 10)) 0 = Inr (n div 10)"
      using "1.IH"[OF False lt] .
    then show ?thesis
      using False "1.prems" ParseUint_loop_snoc[of "n mod 10" "digits (n div 10)" 0]
      by (simp add: digits.simps[of n])
  qed
qed

lemma digits_nonempty: "digits n \<noteq> []"
  by (subst digits.simps) simp

lemma digits_no_sep: "CHR ''-'' \<notin> set (digits n) \<and> CHR ''+'' \<notin> set (digits n)"
proof (induction n rule: digits.induct)
  case (1 n)
  show ?case
  proof (cases "n < 10")
    case True
    then show ?thesis using digit_char_not_sep[of n] by (auto simp: digits.simps[of n])
  next
    case False
    then show ?thesis
      using "1.IH"[OF False] digit_char_not_sep[of "n mod 10"]
      by (auto simp: digits.simps[of n])
  qed
qed

lemma ParseInt_digits:
  assumes "n < 2 ^ 63"
  shows "ParseInt (digits n) = Inr (of_nat n)"
proof -
  have ne: "digits n \<noteq> []" by (rule digits_nonempty)
  then have "hd (digits n) \<in> set (digits n)" by simp
  then have hd: "hd (digits n) \<noteq> CHR ''-''" "hd (digits n) \<noteq> CHR ''+''"
    using digits_no_sep[of n] by auto
  have "ParseUint (digits n) = Inr n"
    using ParseUint_loop_digits[of n] assms ne by (simp add: ParseUint_def)
  then show ?thesis
    using ne hd assms by (simp add: ParseInt_def Let_def)
qed

lemma Split_no_sep: "sep \<notin> set s \<Longrightarrow> Split s sep = [s]"
  by (induction s) auto

lemma Split_append_sep:
  "sep \<notin> set a \<Longrightarrow> Split (a @ sep # b) sep = a # Split b sep"
  by (induction a) auto

lemma of_nat_nat_sint: "0 \<le> sint (w :: int64) \<Longrightarrow> of_nat (nat (sint w)) = w"
  by simp

lemma nat_sint_bound: "nat (sint (w :: int64)) < 2 ^ 63"
  using sint_lt[of w] by (simp add: nat_less_iff)

lemma sint_dec: "0 < sint (x :: int64) \<Longrightarrow> sint (x - 1) = sint x - 1"
proof -
  assume pos: "0 < sint x"
  have "sint x < 2 ^ 63" using sint_lt[of x] by simp
  then have "signed_take_bit 63 (sint x - 1) = sint x - 1"
    using pos by (intro signed_take_bit_int_eq_self) simp_all
  then show ?thesis by (simp add: sint_word_ariths)
qed

lemma FormatInt_nonneg: "0 \<le> k \<Longrightarrow> FormatInt k = digits (nat k)"
  by (simp add: FormatInt_def)

lemma parse_single:
  assumes "0 \<le> sint (w :: int64)"
  shows "ParseInt (FormatInt (sint w)) = Inr w"
  using ParseInt_digits[OF nat_sint_bound[of w]] assms
  by (simp add: FormatInt_nonneg)

lemma parseInterval_Interval_String:
  assumes nn: "0 \<le>s Start i" and lt: "Start i <s Stop i"
  shows "parseInterval (Interval_String i) = Inr i"
proof -
  have s0: "0 \<le> sint (Start i)" using nn by (simp add: s2i)
  have lt': "sint (Start i) < sint (Stop i)" using lt by (simp add: s2i)
  have chk: "\<not> Stop i \<le>s Start i" using lt by (simp add: s2i)
  have pa: "ParseInt (FormatInt (sint (Start i))) = Inr (Start i)" using s0 by (rule parse_single)
  have fa: "FormatInt (sint (Start i)) = digits (nat (sint (Start i)))" using s0 by (rule FormatInt_nonneg)
  have eq: "\<lparr>Start = Start i, Stop = Stop i\<rparr> = i" by simp
  show ?thesis
  proof (cases "Stop i = Start i + 1")
    case True
    have sp: "Split (FormatInt (sint (Start i))) CHR ''-'' = [FormatInt (sint (Start i))]"
      unfolding fa using digits_no_sep by (intro Split_no_sep) simp
    show ?thesis
      using True sp pa chk eq by (simp add: parseInterval_def Interval_String_def Let_def)
  next
    case False
    have p1: "0 < sint (Stop i)" using s0 lt' by simp
    have s1: "0 \<le> sint (Stop i - 1)" using sint_dec[OF p1] p1 by simp
    have pb: "ParseInt (FormatInt (sint (Stop i - 1))) = Inr (Stop i - 1)" using s1 by (rule parse_single)
    have fb: "FormatInt (sint (Stop i - 1)) = digits (nat (sint (Stop i - 1)))"
      using s1 by (rule FormatInt_nonneg)
    have "Split (FormatInt (sint (Start i)) @ CHR ''-'' # FormatInt (sint (Stop i - 1))) CHR ''-''
        = FormatInt (sint (Start i)) # Split (FormatInt (sint (Stop i - 1))) CHR ''-''"
      unfolding fa using digits_no_sep by (intro Split_append_sep) simp
    moreover have "Split (FormatInt (sint (Stop i - 1))) CHR ''-'' = [FormatInt (sint (Stop i - 1))]"
      unfolding fb using digits_no_sep by (intro Split_no_sep) simp
    ultimately have sp: "Split (FormatInt (sint (Start i)) @ ''-'' @ FormatInt (sint (Stop i - 1))) CHR ''-''
        = [FormatInt (sint (Start i)), FormatInt (sint (Stop i - 1))]"
      by simp
    show ?thesis
      using False sp pa pb chk eq
      by (simp add: parseInterval_def Interval_String_def Let_def del: append.simps)
  qed
qed

text \<open>
  Claim C3, as amended. For every interval with \<open>0 \<le> Start < Stop\<close>, parsing its printed
  form returns the interval.
\<close>

theorem C3_parse_roundtrip_nonneg:
  assumes "0 \<le>s Start i" and "Start i <s Stop i"
  shows "parseInterval (Interval_String i) = Inr i"
  using assms by (rule parseInterval_Interval_String)

theorem C3_parse_roundtrip_nonneg_witness:
  "(0 :: int64) \<le>s 1 \<and> (1 :: int64) <s 6 \<and>
   parseInterval (Interval_String \<lparr>Start = 1, Stop = 6\<rparr>) = Inr \<lparr>Start = 1, Stop = 6\<rparr>"
  using C3_parse_roundtrip_nonneg[of "\<lparr>Start = 1, Stop = 6\<rparr>"] by (simp add: s2i)

text \<open>
  The claim as stated fails for a negative \<open>Start\<close>: \<open>[-5, -4)\<close> prints as \<open>-5\<close>, which
  splits at the minus sign into an empty part and \<open>5\<close>.
\<close>

theorem C3_counterexample:
  "Start \<lparr>Start = -5, Stop = -4\<rparr> <s Stop \<lparr>Start = -5, Stop = -4\<rparr> \<and>
   parseInterval (Interval_String \<lparr>Start = -5, Stop = -4\<rparr>) \<noteq> Inr \<lparr>Start = -5, Stop = -4\<rparr>"
  by (simp add: parseInterval_negative s2i)

section \<open>Tagged GTID event: proofs\<close>

lemma andThen_Inr: "andThen r f = Inr y \<longleftrightarrow> (\<exists>x. r = Inr x \<and> f x = Inr y)"
  by (cases r) (simp_all add: andThen_def)

lemma andThenE:
  assumes "andThen r f = Inr y"
  obtains x where "r = Inr x" "f x = Inr y"
  using assms by (auto simp: andThen_Inr)

lemma getField_Inr: "getField G msg name = Inr f \<longleftrightarrow> G msg name = Inr f"
  by (simp add: getField_def split: sum.splits)

lemma step_UintVar:
  "andThen (getField G msg name) (\<lambda>f. case Type f of FieldUintVar v \<Rightarrow> g f v | _ \<Rightarrow> Inl err) = Inr e'
   \<longleftrightarrow> (\<exists>f v. G msg name = Inr f \<and> Type f = FieldUintVar v \<and> g f v = Inr e')"
proof (cases "G msg name")
  case (Inl a)
  then show ?thesis by (simp add: andThen_def getField_def)
next
  case (Inr f)
  then show ?thesis by (cases "Type f") (simp_all add: andThen_def getField_def)
qed

lemma decode_original_commit_timestamp_skipped:
  assumes "decode_original_commit_timestamp G msg e = Inr e'"
    and "G msg ''original_commit_timestamp'' = Inr f" "Skipped f"
  shows "OriginalCommitTimestamp e' = ImmediateCommitTimestamp e'"
  using assms unfolding decode_original_commit_timestamp_def
  by (auto simp: step_UintVar split: if_splits)

lemma decode_original_server_version_skipped:
  assumes "decode_original_server_version G msg e = Inr e'"
    and "G msg ''original_server_version'' = Inr f" "Skipped f"
  shows "OriginalServerVersion e' = ImmediateServerVersion e'"
    and "OriginalCommitTimestamp e' = OriginalCommitTimestamp e"
    and "ImmediateCommitTimestamp e' = ImmediateCommitTimestamp e"
  using assms unfolding decode_original_server_version_def
  by (auto simp: step_UintVar split: if_splits)

lemma decode_original_server_version_keeps:
  assumes "decode_original_server_version G msg e = Inr e'"
  shows "OriginalCommitTimestamp e' = OriginalCommitTimestamp e"
    and "ImmediateCommitTimestamp e' = ImmediateCommitTimestamp e"
  using assms unfolding decode_original_server_version_def
  by (auto simp: step_UintVar split: if_splits)

lemma decode_immediate_server_version_keeps:
  assumes "decode_immediate_server_version G msg e = Inr e'"
  shows "OriginalCommitTimestamp e' = OriginalCommitTimestamp e"
    and "ImmediateCommitTimestamp e' = ImmediateCommitTimestamp e"
  using assms unfolding decode_immediate_server_version_def
  by (auto simp: step_UintVar split: if_splits)

lemma decode_transaction_length_keeps:
  assumes "decode_transaction_length G msg e = Inr e'"
  shows "OriginalCommitTimestamp e' = OriginalCommitTimestamp e"
    and "ImmediateCommitTimestamp e' = ImmediateCommitTimestamp e"
    and "OriginalServerVersion e' = OriginalServerVersion e"
    and "ImmediateServerVersion e' = ImmediateServerVersion e"
  using assms unfolding decode_transaction_length_def
  by (auto simp: step_UintVar split: if_splits)

text \<open>
  Claim C9. When \<^verbatim>\<open>Decode\<close> succeeds on a message whose \<open>original_commit_timestamp\<close> field
  is skipped, the event's \<open>OriginalCommitTimestamp\<close> equals its \<open>ImmediateCommitTimestamp\<close>;
  when \<open>original_server_version\<close> is skipped, \<open>OriginalServerVersion\<close> equals
  \<open>ImmediateServerVersion\<close>.
\<close>

theorem C9_skipped_defaults:
  assumes dec: "GtidTaggedLogEvent_Decode Unmarshal GetFieldByName e data = Inr e'"
    and msg: "Unmarshal data gtid_tagged_format = Inr msg"
  shows "(\<forall>f. GetFieldByName msg ''original_commit_timestamp'' = Inr f \<and> Skipped f \<longrightarrow>
            OriginalCommitTimestamp e' = ImmediateCommitTimestamp e') \<and>
         (\<forall>f. GetFieldByName msg ''original_server_version'' = Inr f \<and> Skipped f \<longrightarrow>
            OriginalServerVersion e' = ImmediateServerVersion e')"
proof -
  from dec msg obtain e7 e8 e9 e10 where
    s8: "decode_original_commit_timestamp GetFieldByName msg e7 = Inr e8" and
    s9: "decode_immediate_server_version GetFieldByName msg e8 = Inr e9" and
    s10: "decode_original_server_version GetFieldByName msg e9 = Inr e10" and
    s11: "decode_transaction_length GetFieldByName msg e10 = Inr e'"
    unfolding GtidTaggedLogEvent_Decode_def
    by (elim andThenE) simp
  have "OriginalCommitTimestamp e' = ImmediateCommitTimestamp e'"
    if "GetFieldByName msg ''original_commit_timestamp'' = Inr f" "Skipped f" for f
    using decode_original_commit_timestamp_skipped[OF s8 that]
      decode_immediate_server_version_keeps[OF s9]
      decode_original_server_version_keeps[OF s10]
      decode_transaction_length_keeps(1,2)[OF s11]
    by simp
  moreover have "OriginalServerVersion e' = ImmediateServerVersion e'"
    if "GetFieldByName msg ''original_server_version'' = Inr f" "Skipped f" for f
    using decode_original_server_version_skipped(1)[OF s10 that]
      decode_transaction_length_keeps(3,4)[OF s11]
    by simp
  ultimately show ?thesis by blast
qed

lemmas decode_steps = decode_gtid_flags_def decode_uuid_def decode_gno_def decode_tag_def
  decode_last_committed_def decode_sequence_number_def decode_immediate_commit_timestamp_def
  decode_original_commit_timestamp_def decode_immediate_server_version_def
  decode_original_server_version_def decode_transaction_length_def

lemma decode_skipped_message:
  "GtidTaggedLogEvent_Decode (\<lambda>(d :: 8 word list) m. Inr skipped_message) GetFieldByName_first zero_event [] =
     Inr \<lparr>CommitFlag = 1, GTIDEvent_SID = replicate 16 0, Tag = ''t'', GNO = 7, LastCommitted = 5,
       SequenceNumber = 6, ImmediateCommitTimestamp = 1700000000000000,
       OriginalCommitTimestamp = 1700000000000000, TransactionLength = 300,
       ImmediateServerVersion = 80300, OriginalServerVersion = 80300\<rparr>"
  by (simp add: GtidTaggedLogEvent_Decode_def decode_steps andThen_def getField_def GetFieldByName_first_def
      skipped_message_def mkField_def zero_event_def)

theorem C9_skipped_defaults_witness:
  "\<exists>e'. GtidTaggedLogEvent_Decode (\<lambda>(d :: 8 word list) m. Inr skipped_message) GetFieldByName_first zero_event [] = Inr e' \<and>
     OriginalCommitTimestamp e' = ImmediateCommitTimestamp e' \<and>
     OriginalServerVersion e' = ImmediateServerVersion e'"
proof -
  have m: "(\<lambda>(d :: 8 word list) m. Inr skipped_message :: string + Message) [] gtid_tagged_format = Inr skipped_message"
    by simp
  have f1: "GetFieldByName_first skipped_message ''original_commit_timestamp'' =
      Inr ((mkField ''original_commit_timestamp'' (FieldUintVar 0) True)\<lparr>Skipped := True\<rparr>)"
    by (simp add: GetFieldByName_first_def skipped_message_def mkField_def)
  have f2: "GetFieldByName_first skipped_message ''original_server_version'' =
      Inr ((mkField ''original_server_version'' (FieldUintVar 0) True)\<lparr>Skipped := True\<rparr>)"
    by (simp add: GetFieldByName_first_def skipped_message_def mkField_def)
  from C9_skipped_defaults[OF decode_skipped_message m] f1 f2
  show ?thesis using decode_skipped_message by (simp add: mkField_def)
qed

section \<open>JSON diff records: proofs\<close>

lemmas JsonDiffOps = JsonDiffOperationReplace_def JsonDiffOperationInsert_def JsonDiffOperationRemove_def

lemma corrupted_iff:
  "decodeJsonPartialBinary L D (op # rest) = Inl ErrCorruptedJSONDiff \<longleftrightarrow> op \<notin> {0, 1, 2}"
  by (auto simp: decodeJsonPartialBinary_def JsonDiffOps Let_def split: option.splits sum.splits)

lemma remove_no_value:
  "decodeJsonPartialBinary L D (2 # rest) = decodeJsonPartialBinary L D' (2 # rest)"
  by (auto simp: decodeJsonPartialBinary_def JsonDiffOps Let_def split: option.splits)

lemma remove_result:
  "decodeJsonPartialBinary L D (2 # rest) = Inr diff \<Longrightarrow>
   Op diff = 2 \<and> Value diff = [] \<and>
   (\<exists>pl b pn. L rest = Some (pl, b, pn) \<and> Path diff = take pl (drop pn rest))"
  by (auto simp: decodeJsonPartialBinary_def JsonDiffOps Let_def split: option.splits if_splits)

lemma value_result:
  "op \<noteq> 2 \<Longrightarrow> decodeJsonPartialBinary L D (op # rest) = Inr diff \<Longrightarrow>
   Op diff = op \<and>
   (\<exists>pl b pn vl c vn. L rest = Some (pl, b, pn) \<and> Path diff = take pl (drop pn rest) \<and>
      L (drop pl (drop pn rest)) = Some (vl, c, vn) \<and>
      D (take vl (drop vn (drop pl (drop pn rest)))) = Inr (Value diff))"
  by (auto simp: decodeJsonPartialBinary_def JsonDiffOps Let_def
      split: option.splits if_splits sum.splits)

text \<open>
  Claim C8. On non-empty data, \<^verbatim>\<open>decodeJsonPartialBinary\<close> fails with
  \<^verbatim>\<open>ErrCorruptedJSONDiff\<close> exactly when the first byte is none of 0 (Replace), 1 (Insert),
  2 (Remove). For Remove the JSON decoder is not consulted (the result is the same whatever
  decoder is supplied) and a returned diff has the path and an empty value. For the other
  two operations a returned diff's value is what the JSON decoder made of the
  length-prefixed bytes that follow the path.
\<close>

theorem C8_json_diff:
  assumes "data \<noteq> []"
  shows "(decodeJsonPartialBinary L D data = Inl ErrCorruptedJSONDiff \<longleftrightarrow> hd data \<notin> {0, 1, 2}) \<and>
    (hd data = 2 \<longrightarrow>
       decodeJsonPartialBinary L D data = decodeJsonPartialBinary L D' data \<and>
       (\<forall>diff. decodeJsonPartialBinary L D data = Inr diff \<longrightarrow>
          Op diff = 2 \<and> Value diff = [] \<and>
          (\<exists>pl b pn. L (tl data) = Some (pl, b, pn) \<and> Path diff = take pl (drop pn (tl data))))) \<and>
    (hd data \<noteq> 2 \<longrightarrow>
       (\<forall>diff. decodeJsonPartialBinary L D data = Inr diff \<longrightarrow>
          Op diff = hd data \<and>
          (\<exists>pl b pn vl c vn. L (tl data) = Some (pl, b, pn) \<and>
             Path diff = take pl (drop pn (tl data)) \<and>
             L (drop pl (drop pn (tl data))) = Some (vl, c, vn) \<and>
             D (take vl (drop vn (drop pl (drop pn (tl data))))) = Inr (Value diff))))"
proof -
  obtain op rest where d: "data = op # rest" using assms by (cases data) auto
  show ?thesis
    unfolding d using corrupted_iff[of L D op rest] remove_no_value[of L D rest D']
      remove_result[of L D rest] value_result[of op L D rest]
    by auto
qed

theorem C8_json_diff_witness:
  "decodeJsonPartialBinary first_byte_length (\<lambda>v. Inr v :: unit + 8 word list) [3, 1, 36] = Inl ErrCorruptedJSONDiff \<and>
   decodeJsonPartialBinary first_byte_length (\<lambda>v. Inr v :: unit + 8 word list) [0, 1, 36, 2, 5, 6]
     = Inr \<lparr>Op = 0, Path = [36], Value = [5, 6]\<rparr> \<and>
   decodeJsonPartialBinary first_byte_length (\<lambda>v. Inr v :: unit + 8 word list) [2, 1, 36, 2, 5, 6]
     = Inr \<lparr>Op = 2, Path = [36], Value = []\<rparr>"
proof -
  have 1: "decodeJsonPartialBinary first_byte_length (\<lambda>v. Inr v :: unit + 8 word list) [3, 1, 36] = Inl ErrCorruptedJSONDiff"
    using C8_json_diff[of "[3, 1, 36]" first_byte_length "\<lambda>v. Inr v :: unit + 8 word list"] by simp
  have 2: "decodeJsonPartialBinary first_byte_length (\<lambda>v. Inr v :: unit + 8 word list) [0, 1, 36, 2, 5, 6]
     = Inr \<lparr>Op = 0, Path = [36], Value = [5, 6]\<rparr>"
    by (simp add: decodeJsonPartialBinary_def first_byte_length_def JsonDiffOps)
  have 3: "decodeJsonPartialBinary first_byte_length (\<lambda>v. Inr v :: unit + 8 word list) [2, 1, 36, 2, 5, 6]
     = Inr \<lparr>Op = 2, Path = [36], Value = []\<rparr>"
    by (simp add: decodeJsonPartialBinary_def first_byte_length_def JsonDiffOps)
  from 1 2 3 show ?thesis by simp
qed

section \<open>Format description event: evaluation\<close>

lemmas fde_eval = FormatDescriptionEvent_Decode_def fde_5_6_10_def fde_5_6_10_log_def Uint16_def Uint32_def
  EventHeaderSize_def BINLOG_CHECKSUM_ALG_UNDEF_def calcVersionProduct_def splitServerVersion_def
  Atoi_def ParseInt_def ParseUint_def digit_val_def cutoff64_def IsNumber_def ToLower_def
  ToLower_char_def checksumVersionProductMysql_def checksumVersionProductMariaDB_def Let_def

lemma split_5_6_10_log: "splitServerVersion ''5.6.10-log'' = [5, 6, 10]"
  by (simp add: fde_eval)

text \<open>
  Claim C6 at the server version \<open>5.6.10\<close>, which is MySQL 5.6.1 or later: the third
  component has no character after its digits, so \<^verbatim>\<open>splitServerVersion\<close> returns
  \<open>[5, 6, 0]\<close>, the product is below that of 5.6.1, and \<^verbatim>\<open>Decode\<close> sets the checksum
  algorithm to 255 (undefined) and leaves the five trailing bytes in the header-length
  table.
\<close>

theorem C6_version_without_suffix:
  "splitServerVersion ''5.6.10'' = [5, 6, 0] \<and>
   FormatDescriptionEvent_Decode fde_5_6_10 =
     Inr \<lparr>Version = 4, ServerVersion = ''5.6.10'', CreateTimestamp = 0, EventHeaderLength = 19,
          EventTypeHeaderLengths = [CHR 0x38, CHR 0x0D, CHR 0x00, CHR 0x01, CHR 0xAA, CHR 0xBB, CHR 0xCC, CHR 0xDD],
          ChecksumAlgorithm = 255\<rparr>"
  by (simp add: fde_eval s2i)

lemma decode_5_6_10_log:
  "FormatDescriptionEvent_Decode fde_5_6_10_log =
     Inr \<lparr>Version = 4, ServerVersion = ''5.6.10-log'', CreateTimestamp = 0, EventHeaderLength = 19,
          EventTypeHeaderLengths = [CHR 0x38, CHR 0x0D, CHR 0x00],
          ChecksumAlgorithm = 1\<rparr>"
  by (simp add: fde_eval s2i)

section \<open>Binary form of a GTID set: proofs\<close>

lemma Uint64_PutUint64: "Uint64 (PutUint64 v @ rest) = v"
proof (rule bit_word_eqI)
  fix n assume "n < LENGTH(64)"
  then have n: "n < 64" by simp
  then consider "n < 8" | "8 \<le> n" "n < 16" | "16 \<le> n" "n < 24" | "24 \<le> n" "n < 32"
    | "32 \<le> n" "n < 40" | "40 \<le> n" "n < 48" | "48 \<le> n" "n < 56" | "56 \<le> n" "n < 64"
    by linarith
  then show "bit (Uint64 (PutUint64 v @ rest)) n = bit v n"
    by cases
      (auto simp add: Uint64_def PutUint64_def bit_or_iff bit_push_bit_iff bit_ucast_iff
        bit_drop_bit_eq)
qed

lemma length_PutUint64: "length (PutUint64 v) = 8"
  by (simp add: PutUint64_def)

lemma Uint64_take8: "Uint64 (take 8 (PutUint64 v @ rest)) = v"
  using Uint64_PutUint64[of v "[]"] by (simp add: length_PutUint64)

lemma sint_of_nat64: "k < 2 ^ 63 \<Longrightarrow> sint (of_nat k :: 64 word) = int k"
  by (simp add: sint_uint signed_take_bit_int_eq_self unsigned_of_nat take_bit_nat_eq_self)

lemma length_encode_interval: "length (encode_interval i) = 16"
  by (simp add: encode_interval_def length_PutUint64)

lemma length_concat_encode: "length (concat (map encode_interval is)) = 16 * length is"
  by (induction "is") (simp_all add: length_encode_interval)

lemma decode_intervals_encode:
  "decode_intervals (length is) (concat (map encode_interval is) @ rest) = Some is"
proof (induction "is")
  case Nil
  then show ?case by simp
next
  case (Cons i "is")
  have a: "Uint64 (take 8 (encode_interval i @ xs)) = Start i" for xs
    using Uint64_take8[of "Start i" "PutUint64 (Stop i) @ xs"] by (simp add: encode_interval_def)
  have b: "Uint64 (take 8 (drop 8 (encode_interval i @ xs))) = Stop i" for xs
    using Uint64_take8[of "Stop i" xs] by (simp add: encode_interval_def length_PutUint64)
  show ?case
    using Cons.IH a b by (simp add: length_encode_interval)
qed

lemma length_UUIDSet_encode:
  "length (UUIDSet_encode v) = length (SID v) + 8 + 16 * length (Intervals v)"
  by (simp add: UUIDSet_encode_def length_PutUint64 length_concat_encode)

lemma UUIDSet_decode_encode:
  assumes sid: "length (SID v) = 16"
    and len: "length (UUIDSet_encode v @ rest) < 2 ^ 63"
  shows "UUIDSet_decode (UUIDSet_encode v @ rest) = Inr (v, length (UUIDSet_encode v))"
proof -
  define k where "k = length (Intervals v)"
  define body where "body = concat (map encode_interval (Intervals v))"
  have enc: "UUIDSet_encode v @ rest = SID v @ PutUint64 (of_nat k) @ body @ rest"
    by (simp add: UUIDSet_encode_def k_def body_def)
  have lb: "length body = 16 * k" by (simp add: body_def k_def length_concat_encode)
  have total: "24 + 16 * k + length rest < 2 ^ 63"
    using len sid by (simp add: length_UUIDSet_encode k_def)
  then have kb: "k < 2 ^ 63" "16 * k + 24 < 2 ^ 63" by simp_all
  have n: "Uint64 (take 8 (drop 16 (UUIDSet_encode v @ rest))) = of_nat k"
    using Uint64_take8[of "of_nat k" "body @ rest"] sid by (simp add: enc)
  have sn: "sint (of_nat k :: 64 word) = int k" using kb(1) by (rule sint_of_nat64)
  have "(16 * of_nat k + of_nat 24 :: 64 word) = of_nat (16 * k + 24)" by simp
  then have s16: "sint (16 * of_nat k + of_nat 24 :: 64 word) = int (16 * k + 24)"
    using sint_of_nat64[OF kb(2)] by simp
  have d: "decode_intervals k (drop 24 (UUIDSet_encode v @ rest)) = Some (Intervals v)"
    using decode_intervals_encode[of "Intervals v" rest] sid
    by (simp add: enc length_PutUint64 k_def body_def)
  have t: "take 16 (UUIDSet_encode v @ rest) = SID v" using sid by (simp add: enc)
  have l: "length (UUIDSet_encode v @ rest) = 24 + 16 * k + length rest"
    using sid by (simp add: length_UUIDSet_encode k_def)
  have eq: "\<lparr>SID = SID v, Intervals = Intervals v\<rparr> = v" by simp
  show ?thesis
    unfolding UUIDSet_decode_def Let_def n t
    using s16 sn d l eq sid
    by (simp add: word_sless_alt length_UUIDSet_encode k_def del: of_nat_add of_nat_mult)
qed

lemma encode_sets_Cons: "encode_sets ((k, v) # sets) = UUIDSet_encode v @ encode_sets sets"
  by (simp add: encode_sets_def)

lemma AddSet_fresh:
  "Sets s (UUID_String (SID v)) = None \<Longrightarrow>
   AddSet s (Some v) = s\<lparr>Sets := (Sets s)(UUID_String (SID v) \<mapsto> v)\<rparr>"
  by (simp add: AddSet_def Let_def)

lemma decode_sets_encode:
  assumes "keyed_by_SID sets"
    and "fst ` set sets \<inter> dom (Sets s) = {}"
    and "length (encode_sets sets @ rest) < 2 ^ 63"
  shows "decode_sets (length sets) (encode_sets sets @ rest) s = Inr (s\<lparr>Sets := Sets s ++ map_of sets\<rparr>)"
  using assms
proof (induction sets arbitrary: s)
  case Nil
  then show ?case by simp
next
  case (Cons kv sets)
  obtain k v where kv: "kv = (k, v)" by (cases kv)
  have key: "k = UUID_String (SID v)" and sid: "length (SID v) = 16"
    using Cons.prems(1) kv by (simp_all add: keyed_by_SID_def)
  have fresh: "Sets s k = None" using Cons.prems(2) kv by auto
  have knot: "k \<notin> fst ` set sets" using Cons.prems(1) kv by (auto simp: keyed_by_SID_def)
  have len: "length (UUIDSet_encode v @ encode_sets sets @ rest) < 2 ^ 63"
    using Cons.prems(3) kv by (simp add: encode_sets_Cons)
  have dec: "UUIDSet_decode (UUIDSet_encode v @ encode_sets sets @ rest) = Inr (v, length (UUIDSet_encode v))"
    using sid len by (rule UUIDSet_decode_encode)
  define s' where "s' = s\<lparr>Sets := (Sets s)(k \<mapsto> v)\<rparr>"
  have add: "AddSet s (Some v) = s'"
    using AddSet_fresh[of s v] fresh key by (simp add: s'_def)
  have p1: "keyed_by_SID sets" using Cons.prems(1) by (simp add: keyed_by_SID_def)
  have p2: "fst ` set sets \<inter> dom (Sets s') = {}"
    using Cons.prems(2) knot by (auto simp: s'_def)
  have p3: "length (encode_sets sets @ rest) < 2 ^ 63" using len by simp
  have IH: "decode_sets (length sets) (encode_sets sets @ rest) s' = Inr (s'\<lparr>Sets := Sets s' ++ map_of sets\<rparr>)"
    using Cons.IH[OF p1 p2 p3] .
  have "k \<notin> dom (map_of sets)" using knot by (simp add: dom_map_of_conv_image_fst)
  then have "(Sets s)(k \<mapsto> v) ++ map_of sets = Sets s ++ (map_of sets)(k \<mapsto> v)"
    by (simp add: map_add_upd_left)
  then have fin: "s'\<lparr>Sets := Sets s' ++ map_of sets\<rparr> = s\<lparr>Sets := Sets s ++ map_of (kv # sets)\<rparr>"
    by (simp add: s'_def kv)
  have "decode_sets (length (kv # sets)) (encode_sets (kv # sets) @ rest) s
      = decode_sets (length sets) (encode_sets sets @ rest) s'"
    using dec add by (simp add: kv encode_sets_Cons)
  also have "\<dots> = Inr (s'\<lparr>Sets := Sets s' ++ map_of sets\<rparr>)" by (rule IH)
  also have "\<dots> = Inr (s\<lparr>Sets := Sets s ++ map_of (kv # sets)\<rparr>)" by (simp only: fin)
  finally show ?case .
qed

lemma length_encode_sets_ge: "keyed_by_SID sets \<Longrightarrow> length sets \<le> length (encode_sets sets)"
proof (induction sets)
  case Nil
  then show ?case by simp
next
  case (Cons kv sets)
  obtain k v where kv: "kv = (k, v)" by (cases kv)
  have "keyed_by_SID sets" using Cons.prems by (simp add: keyed_by_SID_def)
  then have "length sets \<le> length (encode_sets sets)" by (rule Cons.IH)
  moreover have "length (SID v) = 16" using Cons.prems kv by (simp add: keyed_by_SID_def)
  ultimately show ?case by (simp add: kv encode_sets_Cons length_UUIDSet_encode)
qed

text \<open>
  Claim C4. Let \<open>g\<close> be a GTID set whose entries, in any visiting order, are \<open>sets\<close>: keys
  are the strings of the UUIDs they map to, UUIDs are 16 bytes, and the encoding fits a Go
  slice (fewer than \<open>2^63\<close> bytes). Then decoding the encoding of \<open>g\<close> succeeds and returns
  \<open>g\<close>.
\<close>

theorem C4_binary_roundtrip:
  assumes g: "Sets g = map_of sets"
    and keyed: "keyed_by_SID sets"
    and len: "length (MysqlGTIDSet_Encode sets) < 2 ^ 63"
  shows "DecodeMysqlGTIDSet (MysqlGTIDSet_Encode sets) = Inr g"
proof -
  have enc: "MysqlGTIDSet_Encode sets = PutUint64 (of_nat (length sets)) @ encode_sets sets"
    by (simp add: MysqlGTIDSet_Encode_def encode_sets_def)
  have l2: "length (encode_sets sets @ []) < 2 ^ 63" using len by (simp add: enc)
  have "length sets < 2 ^ 63" using length_encode_sets_ge[OF keyed] l2 by simp
  then have sn: "sint (of_nat (length sets) :: 64 word) = int (length sets)" by (rule sint_of_nat64)
  have n: "Uint64 (MysqlGTIDSet_Encode sets) = of_nat (length sets)"
    by (simp add: enc Uint64_PutUint64)
  have "decode_sets (length sets) (encode_sets sets @ []) \<lparr>Sets = Map.empty\<rparr>
      = Inr (\<lparr>Sets = Map.empty\<rparr>\<lparr>Sets := Sets \<lparr>Sets = Map.empty\<rparr> ++ map_of sets\<rparr>)"
    using keyed _ l2 by (rule decode_sets_encode) simp
  then have d: "decode_sets (length sets) (encode_sets sets) \<lparr>Sets = Map.empty\<rparr> = Inr g"
    using g by simp
  show ?thesis
    unfolding DecodeMysqlGTIDSet_def Let_def n sn
    using d by (simp add: enc length_PutUint64)
qed

theorem C4_binary_roundtrip_witness:
  "DecodeMysqlGTIDSet
     (MysqlGTIDSet_Encode
        [(UUID_String (replicate 16 0), \<lparr>SID = replicate 16 0, Intervals = [\<lparr>Start = 1, Stop = 6\<rparr>]\<rparr>)])
   = Inr \<lparr>Sets = map_of
        [(UUID_String (replicate 16 0), \<lparr>SID = replicate 16 0, Intervals = [\<lparr>Start = 1, Stop = 6\<rparr>]\<rparr>)]\<rparr>"
proof (rule C4_binary_roundtrip)
  show "keyed_by_SID
     [(UUID_String (replicate 16 0), \<lparr>SID = replicate 16 0, Intervals = [\<lparr>Start = 1, Stop = 6\<rparr>]\<rparr>)]"
    by (simp add: keyed_by_SID_def)
  show "length (MysqlGTIDSet_Encode
        [(UUID_String (replicate 16 0), \<lparr>SID = replicate 16 0, Intervals = [\<lparr>Start = 1, Stop = 6\<rparr>]\<rparr>)])
      < 2 ^ 63"
    by (simp add: MysqlGTIDSet_Encode_def length_PutUint64 length_UUIDSet_encode)
qed simp

text \<open>
  A set whose first interval stops at 0 is among those \<^verbatim>\<open>UUIDSet.decode\<close> returns: the 40
  bytes of its encoding decode to it.
\<close>

lemma zero_stop_decodable:
  "UUIDSet_decode (UUIDSet_encode \<lparr>SID = replicate 16 0, Intervals = [\<lparr>Start = -5, Stop = 0\<rparr>]\<rparr>) =
     Inr (\<lparr>SID = replicate 16 0, Intervals = [\<lparr>Start = -5, Stop = 0\<rparr>]\<rparr>, 40)"
  using UUIDSet_decode_encode[of "\<lparr>SID = replicate 16 0, Intervals = [\<lparr>Start = -5, Stop = 0\<rparr>]\<rparr>" "[]"]
  by (simp add: UUIDSet_encode_def encode_interval_def PutUint64_def)

section \<open>Text form of a GTID set: proofs\<close>

lemma nat_lt_16_cases:
  assumes "n < (16 :: nat)"
  obtains "n = 0" | "n = 1" | "n = 2" | "n = 3" | "n = 4" | "n = 5" | "n = 6" | "n = 7"
    | "n = 8" | "n = 9" | "n = 10" | "n = 11" | "n = 12" | "n = 13" | "n = 14" | "n = 15"
  using assms by (auto simp: numeral_eq_Suc less_Suc_eq)

lemma xvalue_hextable: "n < 16 \<Longrightarrow> xvalue (hextable ! n) = Some (of_nat n)"
  by (erule nat_lt_16_cases) (simp_all add: xvalue_def hextable_def)

lemma hextable_in: "n < 16 \<Longrightarrow> hextable ! n \<in> set ''0123456789abcdef''"
  by (erule nat_lt_16_cases) (simp_all add: hextable_def)

lemma hi_nibble_lt: "unat (drop_bit 4 (b :: 8 word)) < 16"
proof -
  have "unat b < 256" using unsigned_less[of b, where 'a = nat] by simp
  moreover have "unat (drop_bit 4 b) = unat b div 16"
    by (simp add: drop_bit_eq_div unat_div)
  ultimately show ?thesis by simp
qed

lemma lo_nibble_lt: "unat ((b :: 8 word) AND 15) < 16"
proof -
  have "unat (b AND 15) \<le> unat (15 :: 8 word)"
    by (rule word_and_le1 [THEN word_le_nat_alt [THEN iffD1]])
  then show ?thesis by simp
qed

lemma nibbles_join: "push_bit 4 (drop_bit 4 b) OR (b AND 15) = (b :: 8 word)"
proof -
  have m: "(15 :: 8 word) = mask 4" by (simp add: mask_eq_exp_minus_1)
  show ?thesis
  proof (rule bit_word_eqI)
    fix n assume "n < LENGTH(8)"
    then show "bit (push_bit 4 (drop_bit 4 b) OR (b AND 15)) n = bit b n"
      unfolding m
      by (auto simp: bit_or_iff bit_and_iff bit_push_bit_iff bit_drop_bit_eq bit_mask_iff not_less)
  qed
qed

lemma xtob_hex_byte:
  "xtob (hextable ! unat (drop_bit 4 b)) (hextable ! unat (b AND 15)) = Some b"
  using nibbles_join[of b]
  by (simp add: xtob_def xvalue_hextable hi_nibble_lt lo_nibble_lt)

lemma length16_explicit:
  assumes "length (u :: 'a list) = 16"
  obtains b0 b1 b2 b3 b4 b5 b6 b7 b8 b9 b10 b11 b12 b13 b14 b15 where
    "u = [b0, b1, b2, b3, b4, b5, b6, b7, b8, b9, b10, b11, b12, b13, b14, b15]"
  using assms by (auto simp: numeral_eq_Suc length_Suc_conv)

lemma xtob_all_Cons:
  "xtob (s ! x) (s ! Suc x) = Some v \<Longrightarrow> xtob_all s xs = Inr vs \<Longrightarrow> xtob_all s (x # xs) = Inr (v # vs)"
  by simp

lemma UUID_Parse_String:
  assumes "length u = 16"
  shows "UUID_Parse (UUID_String u) = Inr u"
proof -
  from assms obtain b0 b1 b2 b3 b4 b5 b6 b7 b8 b9 b10 b11 b12 b13 b14 b15 where
    u: "u = [b0, b1, b2, b3, b4, b5, b6, b7, b8, b9, b10, b11, b12, b13, b14, b15]"
    by (rule length16_explicit)
  show ?thesis
    unfolding u
    by (simp add: UUID_String_def hex_Encode_def hex_byte_def UUID_Parse_def UUID_Parse_hyphenated_def
        xtob_hex_byte)
qed

lemma length_hex_Encode: "length (hex_Encode bs) = 2 * length bs"
  by (induction bs) (simp_all add: hex_Encode_def hex_byte_def)

lemma length_UUID_String: "length u = 16 \<Longrightarrow> length (UUID_String u) = 36"
  by (simp add: UUID_String_def length_hex_Encode)

lemma plain_hextable: "n < 16 \<Longrightarrow> plain (hextable ! n)"
  by (erule nat_lt_16_cases) (simp_all add: hextable_def plain_def isSpace_def)

lemma plain_digit_char: "d < 10 \<Longrightarrow> plain (digit_char d)"
proof -
  assume "d < 10"
  then consider "d = 0" | "d = 1" | "d = 2" | "d = 3" | "d = 4" | "d = 5" | "d = 6" | "d = 7" | "d = 8" | "d = 9"
    by (auto simp: numeral_eq_Suc less_Suc_eq)
  then show ?thesis by cases (simp_all add: digit_char_def plain_def isSpace_def)
qed

lemma plain_minus: "plain CHR ''-''"
  by (simp add: plain_def isSpace_def)

lemma plain_hex_Encode: "list_all plain (hex_Encode bs)"
  by (induction bs) (simp_all add: hex_Encode_def hex_byte_def plain_hextable hi_nibble_lt lo_nibble_lt)

lemma plain_UUID_String: "list_all plain (UUID_String u)"
  by (simp add: UUID_String_def plain_hex_Encode plain_minus)

lemma plain_digits: "list_all plain (digits n)"
proof (induction n rule: digits.induct)
  case (1 n)
  show ?case
  proof (cases "n < 10")
    case True
    then show ?thesis using plain_digit_char[of n] by (simp add: digits.simps[of n])
  next
    case False
    then show ?thesis
      using "1.IH"[OF False] plain_digit_char[of "n mod 10"] by (simp add: digits.simps[of n])
  qed
qed

lemma plain_FormatInt: "list_all plain (FormatInt k)"
  by (simp add: FormatInt_def plain_digits plain_minus)

lemma plain_Interval_String: "list_all plain (Interval_String i)"
  by (simp add: Interval_String_def plain_FormatInt plain_minus)

lemma no_colon_UUID_String: "CHR '':'' \<notin> set (UUID_String u)"
  using plain_UUID_String[of u] by (auto simp: list_all_iff plain_def)

lemma no_colon_Interval_String: "CHR '':'' \<notin> set (Interval_String i)"
  using plain_Interval_String[of i] by (auto simp: list_all_iff plain_def)

lemma piece_char_plain: "plain c \<Longrightarrow> piece_char c"
  by (simp add: plain_def piece_char_def)

lemma piece_char_colon: "piece_char CHR '':''"
  by (simp add: piece_char_def isSpace_def)

lemma UUIDSet_String_chars: "list_all piece_char (UUIDSet_String v)"
proof -
  have a: "list_all piece_char (UUID_String (SID v))"
    using plain_UUID_String[of "SID v"] piece_char_plain by (simp add: list_all_iff)
  have b: "list_all piece_char (Interval_String i)" for i
    using plain_Interval_String[of i] piece_char_plain by (simp add: list_all_iff)
  have "list_all piece_char (concat (map (\<lambda>i. '':'' @ Interval_String i) is))" for "is"
    by (induction "is") (simp_all add: b piece_char_colon)
  then show ?thesis using a by (simp add: UUIDSet_String_def)
qed

lemma Split_pieces:
  assumes "sep \<notin> set a" and "\<forall>x \<in> set xs. sep \<notin> set (f x)"
  shows "Split (a @ concat (map (\<lambda>x. [sep] @ f x) xs)) sep = a # map f xs"
  using assms
proof (induction xs arbitrary: a)
  case Nil
  then show ?case by (simp add: Split_no_sep)
next
  case (Cons x xs)
  have "Split (a @ sep # (f x @ concat (map (\<lambda>x. [sep] @ f x) xs))) sep
      = a # Split (f x @ concat (map (\<lambda>x. [sep] @ f x) xs)) sep"
    using Cons.prems(1) by (rule Split_append_sep)
  moreover have "Split (f x @ concat (map (\<lambda>x. [sep] @ f x) xs)) sep = f x # map f xs"
    using Cons.prems(2) by (intro Cons.IH) simp_all
  ultimately show ?case by simp
qed

lemma Split_Join:
  assumes "xs \<noteq> []" and "\<forall>x \<in> set xs. c \<notin> set x"
  shows "Split (Join xs [c]) c = xs"
  using assms
proof (induction xs "[c]" rule: Join.induct)
  case 1
  then show ?case by simp
next
  case (2 x)
  then show ?case by (simp add: Split_no_sep)
next
  case (3 x y ys)
  have "Split (x @ c # Join (y # ys) [c]) c = x # Split (Join (y # ys) [c]) c"
    using "3.prems"(2) by (intro Split_append_sep) simp
  then show ?case using 3 by simp
qed

lemma TrimSpace_id: "list_all (\<lambda>c. \<not> isSpace c) s \<Longrightarrow> TrimSpace s = s"
proof -
  assume a: "list_all (\<lambda>c. \<not> isSpace c) s"
  have d: "dropWhile isSpace xs = xs" if "list_all (\<lambda>c. \<not> isSpace c) xs" for xs
    using that by (cases xs) simp_all
  have "dropWhile isSpace s = s" using a by (rule d)
  moreover have "dropWhile isSpace (rev s) = rev s" using a by (intro d) (simp add: list_all_iff)
  ultimately show ?thesis by (simp add: TrimSpace_def)
qed

lemma parse_intervals_String:
  assumes "list_all valid_interval is" "list_all (\<lambda>i. 0 \<le>s Start i) is"
  shows "parse_intervals (map Interval_String is) = Inr is"
  using assms
proof (induction "is")
  case Nil
  then show ?case by simp
next
  case (Cons i "is")
  have "parseInterval (Interval_String i) = Inr i"
    using Cons.prems by (intro parseInterval_Interval_String) (simp_all add: valid_interval_def)
  then show ?case using Cons by simp
qed

lemma ParseUUIDSet_String:
  assumes sid: "length (SID v) = 16" and p: "printable v"
  shows "ParseUUIDSet (UUIDSet_String v) = Inr v"
proof -
  have ne: "Intervals v \<noteq> []" and va: "list_all valid_interval (Intervals v)"
    and no: "normalized (Intervals v)" and nn: "list_all (\<lambda>i. 0 \<le>s Start i) (Intervals v)"
    using p by (simp_all add: printable_def)
  have "list_all (\<lambda>c. \<not> isSpace c) (UUIDSet_String v)"
    using UUIDSet_String_chars[of v] by (simp add: list_all_iff piece_char_def)
  then have trim: "TrimSpace (UUIDSet_String v) = UUIDSet_String v" by (rule TrimSpace_id)
  have sp: "Split (UUIDSet_String v) CHR '':'' = UUID_String (SID v) # map Interval_String (Intervals v)"
    unfolding UUIDSet_String_def
    using no_colon_UUID_String no_colon_Interval_String by (intro Split_pieces) simp_all
  have len: "\<not> length (UUID_String (SID v) # map Interval_String (Intervals v)) < 2"
    using ne by (cases "Intervals v") simp_all
  have up: "UUID_Parse (UUID_String (SID v)) = Inr (SID v)" using sid by (rule UUID_Parse_String)
  have pi: "parse_intervals (map Interval_String (Intervals v)) = Inr (Intervals v)"
    using va nn by (rule parse_intervals_String)
  have nz: "Normalize (Intervals v) = Intervals v"
    using chainv_if_normalized[OF va no] by (rule Normalize_chainv)
  have eq: "\<lparr>SID = SID v, Intervals = Intervals v\<rparr> = v" by simp
  show ?thesis
    unfolding ParseUUIDSet_def Let_def trim sp
    using len up pi nz eq by simp
qed

lemma MysqlGTIDSet_String_Join:
  "MysqlGTIDSet_String sets = Join (sort (map entry_string sets)) '',''"
proof -
  have m: "map (\<lambda>(k, set'). UUIDSet_String set') sets = map entry_string sets"
    by (simp add: entry_string_def case_prod_unfold)
  show ?thesis
  proof (cases "length sets = 1")
    case True
    then obtain kv where "sets = [kv]" by (cases sets) auto
    then show ?thesis by (simp add: MysqlGTIDSet_String_def entry_string_def)
  next
    case False
    then show ?thesis by (simp add: MysqlGTIDSet_String_def m)
  qed
qed

lemma parse_sets_String:
  assumes "keyed_by_SID sets"
    and "list_all (\<lambda>kv. printable (snd kv)) sets"
    and "fst ` set sets \<inter> dom (Sets s) = {}"
  shows "parse_sets (map entry_string sets) s = Inr (s\<lparr>Sets := Sets s ++ map_of sets\<rparr>)"
  using assms
proof (induction sets arbitrary: s)
  case Nil
  then show ?case by simp
next
  case (Cons kv sets)
  obtain k v where kv: "kv = (k, v)" by (cases kv)
  have key: "k = UUID_String (SID v)" and sid: "length (SID v) = 16"
    using Cons.prems(1) kv by (simp_all add: keyed_by_SID_def)
  have pv: "printable v" using Cons.prems(2) kv by simp
  have fresh: "Sets s k = None" using Cons.prems(3) kv by auto
  have knot: "k \<notin> fst ` set sets" using Cons.prems(1) kv by (auto simp: keyed_by_SID_def)
  have dec: "ParseUUIDSet (entry_string kv) = Inr v"
    using ParseUUIDSet_String[OF sid pv] by (simp add: entry_string_def kv)
  define s' where "s' = s\<lparr>Sets := (Sets s)(k \<mapsto> v)\<rparr>"
  have add: "AddSet s (Some v) = s'"
    using AddSet_fresh[of s v] fresh key by (simp add: s'_def)
  have p1: "keyed_by_SID sets" using Cons.prems(1) by (simp add: keyed_by_SID_def)
  have p2: "list_all (\<lambda>kv. printable (snd kv)) sets" using Cons.prems(2) by simp
  have p3: "fst ` set sets \<inter> dom (Sets s') = {}"
    using Cons.prems(3) knot by (auto simp: s'_def)
  have IH: "parse_sets (map entry_string sets) s' = Inr (s'\<lparr>Sets := Sets s' ++ map_of sets\<rparr>)"
    using Cons.IH[OF p1 p2 p3] .
  have "k \<notin> dom (map_of sets)" using knot by (simp add: dom_map_of_conv_image_fst)
  then have "(Sets s)(k \<mapsto> v) ++ map_of sets = Sets s ++ (map_of sets)(k \<mapsto> v)"
    by (simp add: map_add_upd_left)
  then have fin: "s'\<lparr>Sets := Sets s' ++ map_of sets\<rparr> = s\<lparr>Sets := Sets s ++ map_of (kv # sets)\<rparr>"
    by (simp add: s'_def kv)
  have "parse_sets (map entry_string (kv # sets)) s = parse_sets (map entry_string sets) s'"
    using dec add by simp
  also have "\<dots> = Inr (s'\<lparr>Sets := Sets s' ++ map_of sets\<rparr>)" by (rule IH)
  also have "\<dots> = Inr (s\<lparr>Sets := Sets s ++ map_of (kv # sets)\<rparr>)" by (simp only: fin)
  finally show ?case .
qed

lemma sort_map_key: "sort (map f xs) = map f (sort_key f xs)"
proof (induction xs)
  case Nil
  then show ?case by simp
next
  case (Cons x xs)
  have "insort_key (\<lambda>x. x) (f x) (map f ys) = map f (insort_key f x ys)" for ys
    by (induction ys) simp_all
  then show ?case using Cons by simp
qed

lemma entries_same_set:
  assumes "distinct (map fst xs)" "distinct (map fst ys)" "map_of xs = map_of ys"
  shows "mset xs = mset ys"
proof -
  have "set xs = set ys" using assms by (simp add: map_of_inject_set)
  moreover have "distinct xs" "distinct ys" using assms(1,2) by (simp_all add: distinct_map)
  ultimately show ?thesis by (simp add: set_eq_iff_mset_eq_distinct)
qed

lemma String_order_independent:
  assumes "distinct (map fst xs)" "distinct (map fst ys)" "map_of xs = map_of ys"
  shows "MysqlGTIDSet_String xs = MysqlGTIDSet_String ys"
proof -
  have "mset (map entry_string xs) = mset (map entry_string ys)"
    using entries_same_set[OF assms] by simp
  then have "sort (map entry_string xs) = sort (map entry_string ys)"
    by (intro properties_for_sort) simp_all
  then show ?thesis by (simp add: MysqlGTIDSet_String_Join)
qed

lemma Join_nonempty: "xs \<noteq> [] \<Longrightarrow> \<forall>x \<in> set xs. x \<noteq> [] \<Longrightarrow> Join xs sep \<noteq> []"
  by (induction xs sep rule: Join.induct) simp_all

lemma entry_string_nonempty: "length (SID (snd kv)) = 16 \<Longrightarrow> entry_string kv \<noteq> []"
  using length_UUID_String[of "SID (snd kv)"] by (auto simp: entry_string_def UUIDSet_String_def)

lemma Parse_String:
  assumes g: "Sets g = map_of sets"
    and keyed: "keyed_by_SID sets"
    and pr: "list_all (\<lambda>kv. printable (snd kv)) sets"
  shows "ParseMysqlGTIDSet (MysqlGTIDSet_String sets) = Inr g"
proof (cases "sets = []")
  case True
  then show ?thesis using g by (simp add: MysqlGTIDSet_String_Join ParseMysqlGTIDSet_def)
next
  case False
  define sorted_sets where "sorted_sets = sort_key entry_string sets"
  have ms: "mset sorted_sets = mset sets" by (simp add: sorted_sets_def)
  then have st: "set sorted_sets = set sets" by (metis set_mset_mset)
  have strs: "sort (map entry_string sets) = map entry_string sorted_sets"
    by (simp add: sorted_sets_def sort_map_key)
  have "mset (map fst sorted_sets) = mset (map fst sets)" using ms by simp
  then have dk: "distinct (map fst sorted_sets)"
    using keyed by (metis keyed_by_SID_def mset_eq_imp_distinct_iff)
  have keyed': "keyed_by_SID sorted_sets"
    using keyed dk st by (simp add: keyed_by_SID_def list_all_iff)
  have pr': "list_all (\<lambda>kv. printable (snd kv)) sorted_sets"
    using pr st by (simp add: list_all_iff)
  have mo: "map_of sorted_sets = map_of sets"
    using dk keyed st by (simp add: map_of_inject_set keyed_by_SID_def)
  have ne: "map entry_string sorted_sets \<noteq> []" using False st by auto
  have sids: "\<forall>kv \<in> set sorted_sets. length (SID (snd kv)) = 16"
    using keyed' by (auto simp: keyed_by_SID_def list_all_iff)
  have nonempty: "\<forall>x \<in> set (map entry_string sorted_sets). x \<noteq> []"
    using sids entry_string_nonempty by auto
  have nocomma: "\<forall>x \<in> set (map entry_string sorted_sets). CHR '','' \<notin> set x"
    using UUIDSet_String_chars by (auto simp: entry_string_def list_all_iff piece_char_def)
  have str: "MysqlGTIDSet_String sets = Join (map entry_string sorted_sets) '',''"
    by (simp add: MysqlGTIDSet_String_Join strs)
  have n0: "MysqlGTIDSet_String sets \<noteq> []"
    unfolding str using ne nonempty by (rule Join_nonempty)
  have sp: "Split (MysqlGTIDSet_String sets) CHR '','' = map entry_string sorted_sets"
    unfolding str using ne nocomma by (rule Split_Join)
  have "parse_sets (map entry_string sorted_sets) \<lparr>Sets = Map.empty\<rparr>
      = Inr (\<lparr>Sets = Map.empty\<rparr>\<lparr>Sets := Sets \<lparr>Sets = Map.empty\<rparr> ++ map_of sorted_sets\<rparr>)"
    using keyed' pr' by (rule parse_sets_String) simp
  then have "parse_sets (map entry_string sorted_sets) \<lparr>Sets = Map.empty\<rparr> = Inr g"
    using mo g by simp
  then show ?thesis
    using n0 sp by (simp add: ParseMysqlGTIDSet_def)
qed

text \<open>
  Claim C5, as amended. Let \<open>g\<close> be a GTID set whose entries, in any visiting order, are
  \<open>sets\<close>: keys are the strings of the 16-byte UUIDs they map to, and every UUID set has at
  least one interval, valid and normalized intervals, and no interval starting below 0.
  Then parsing the printed form of \<open>g\<close> returns \<open>g\<close>, and printing it, in whatever order its
  entries are visited, gives the same string again.
\<close>

theorem C5_text_roundtrip:
  assumes g: "Sets g = map_of sets"
    and keyed: "keyed_by_SID sets"
    and pr: "list_all (\<lambda>kv. printable (snd kv)) sets"
  shows "ParseMysqlGTIDSet (MysqlGTIDSet_String sets) = Inr g \<and>
         (\<forall>sets'. distinct (map fst sets') \<and> map_of sets' = Sets g \<longrightarrow>
            MysqlGTIDSet_String sets' = MysqlGTIDSet_String sets)"
proof -
  have "MysqlGTIDSet_String sets' = MysqlGTIDSet_String sets"
    if "distinct (map fst sets')" "map_of sets' = Sets g" for sets'
    using that keyed g by (intro String_order_independent) (simp_all add: keyed_by_SID_def)
  then show ?thesis using Parse_String[OF g keyed pr] by blast
qed

lemma UUID_String_example: "UUID_String example_uuid = ''3e11fa47-71ca-11e1-9e33-c80aa9429562''"
  by (simp add: UUID_String_def hex_Encode_def hex_byte_def hextable_def example_uuid_def)

lemma UUID_String_example2: "UUID_String example_uuid2 = ''000cfa47-71ca-11e1-9e33-c80aa9429563''"
  by (simp add: UUID_String_def hex_Encode_def hex_byte_def hextable_def example_uuid2_def)

lemma UUID_Parse_upper_case: "UUID_Parse ''3E11FA47-71CA-11E1-9E33-C80AA9429562'' = Inr example_uuid"
  by (simp add: UUID_Parse_def UUID_Parse_hyphenated_def xtob_def xvalue_def example_uuid_def)

lemma keyed_example: "keyed_by_SID example_sets"
  by (simp add: keyed_by_SID_def example_sets_def UUID_String_example UUID_String_example2)
     (simp add: example_uuid_def example_uuid2_def)

lemma printable_example: "list_all (\<lambda>kv. printable (snd kv)) example_sets"
  by (simp add: example_sets_def printable_def valid_interval_def normalized_def disjoint_def s2i)

theorem C5_text_roundtrip_witness:
  "ParseMysqlGTIDSet (MysqlGTIDSet_String example_sets) = Inr \<lparr>Sets = map_of example_sets\<rparr> \<and>
   MysqlGTIDSet_String (rev example_sets) = MysqlGTIDSet_String example_sets"
proof -
  have d: "distinct (map fst (rev example_sets))"
    using keyed_example by (simp add: keyed_by_SID_def distinct_rev rev_map[symmetric])
  have m: "map_of (rev example_sets) = Sets \<lparr>Sets = map_of example_sets\<rparr>"
    using keyed_example by (simp add: keyed_by_SID_def map_of_inject_set d[simplified])
  from C5_text_roundtrip[of "\<lparr>Sets = map_of example_sets\<rparr>" example_sets, OF _ keyed_example printable_example]
  show ?thesis using d m by auto
qed

text \<open>
  The claim as stated fails for a set holding a UUID with no interval: it prints as the
  bare UUID, which \<^verbatim>\<open>ParseUUIDSet\<close> rejects for want of a colon, so there is no parsed set
  to print.
\<close>

theorem C5_counterexample:
  "keyed_by_SID empty_interval_sets \<and>
   MysqlGTIDSet_String empty_interval_sets = ''3e11fa47-71ca-11e1-9e33-c80aa9429562'' \<and>
   ParseMysqlGTIDSet (MysqlGTIDSet_String empty_interval_sets) = Inl InvalidGTIDFormat"
proof -
  have k: "keyed_by_SID empty_interval_sets"
    by (simp add: keyed_by_SID_def empty_interval_sets_def example_uuid_def)
  have s: "MysqlGTIDSet_String empty_interval_sets = ''3e11fa47-71ca-11e1-9e33-c80aa9429562''"
    by (simp add: MysqlGTIDSet_String_def empty_interval_sets_def UUIDSet_String_def UUID_String_example)
  have p: "ParseMysqlGTIDSet ''3e11fa47-71ca-11e1-9e33-c80aa9429562'' = Inl InvalidGTIDFormat"
    by (simp add: ParseMysqlGTIDSet_def ParseUUIDSet_def TrimSpace_def isSpace_def Let_def)
  from k s p show ?thesis by simp
qed

lemma example_String:
  "MysqlGTIDSet_String example_sets =
     ''000cfa47-71ca-11e1-9e33-c80aa9429563:7,3e11fa47-71ca-11e1-9e33-c80aa9429562:1-5:10''"
  by (simp add: MysqlGTIDSet_String_def example_sets_def UUIDSet_String_def UUID_String_example
      UUID_String_example2 Interval_String_def FormatInt_def digits.simps digit_char_def
      less_eq_char_def less_char_def)

text \<open>
  The other conditions on the intervals are needed as well: an interval that starts below
  0 and an interval with \<open>Stop \<le> Start\<close> print as text that \<^verbatim>\<open>parseInterval\<close> rejects, and
  intervals that are not normalized are merged by \<^verbatim>\<open>ParseUUIDSet\<close> and then print
  differently.
\<close>

lemma UUID_Parse_example: "UUID_Parse ''3e11fa47-71ca-11e1-9e33-c80aa9429562'' = Inr example_uuid"
  by (simp add: UUID_Parse_def UUID_Parse_hyphenated_def xtob_def xvalue_def example_uuid_def)

lemmas text_eval = MysqlGTIDSet_String_def UUIDSet_String_def UUID_String_example
  ParseMysqlGTIDSet_def ParseUUIDSet_def TrimSpace_def isSpace_def UUID_Parse_example AddSet_def
  parse_eval

lemma negative_start_not_parsed:
  "MysqlGTIDSet_String
     [(UUID_String example_uuid, \<lparr>SID = example_uuid, Intervals = [\<lparr>Start = -5, Stop = -4\<rparr>]\<rparr>)] =
     ''3e11fa47-71ca-11e1-9e33-c80aa9429562:-5'' \<and>
   ParseMysqlGTIDSet ''3e11fa47-71ca-11e1-9e33-c80aa9429562:-5'' = Inl (IntervalErr (NumErr ErrSyntax))"
  by (simp add: text_eval)

lemma invalid_interval_not_parsed:
  "MysqlGTIDSet_String
     [(UUID_String example_uuid, \<lparr>SID = example_uuid, Intervals = [\<lparr>Start = 5, Stop = 5\<rparr>]\<rparr>)] =
     ''3e11fa47-71ca-11e1-9e33-c80aa9429562:5-4'' \<and>
   ParseMysqlGTIDSet ''3e11fa47-71ca-11e1-9e33-c80aa9429562:5-4'' = Inl (IntervalErr InvalidEnd)"
  by (simp add: text_eval s2i)

lemma unnormalized_printed_differently:
  "MysqlGTIDSet_String
     [(UUID_String example_uuid,
       \<lparr>SID = example_uuid, Intervals = [\<lparr>Start = 1, Stop = 2\<rparr>, \<lparr>Start = 2, Stop = 3\<rparr>]\<rparr>)] =
     ''3e11fa47-71ca-11e1-9e33-c80aa9429562:1:2'' \<and>
   ParseMysqlGTIDSet ''3e11fa47-71ca-11e1-9e33-c80aa9429562:1:2'' =
     Inr \<lparr>Sets = [UUID_String example_uuid \<mapsto>
       \<lparr>SID = example_uuid, Intervals = [\<lparr>Start = 1, Stop = 3\<rparr>]\<rparr>]\<rparr> \<and>
   MysqlGTIDSet_String
     [(UUID_String example_uuid, \<lparr>SID = example_uuid, Intervals = [\<lparr>Start = 1, Stop = 3\<rparr>]\<rparr>)] =
     ''3e11fa47-71ca-11e1-9e33-c80aa9429562:1-2''"
proof -
  have n: "Normalize [\<lparr>Start = 1, Stop = 2\<rparr>, \<lparr>Start = 2, Stop = 3\<rparr>] = [\<lparr>Start = 1, Stop = 3\<rparr>]"
    by (simp add: Normalize_def Sort_def interval_key_def Normalize_loop_single merged_def s2i)
  show ?thesis
    by (simp add: text_eval n s2i)
qed

end
